theory Spec2Isabelle
  imports Complex_Main
begin

section \<open>Parent selection operators of pygad (pygad/utils/parent_selection.py)\<close>

text \<open>
  The module is a class \<open>ParentSelection\<close> of eight selectors and one helper. Its methods
  work on numpy arrays, some of which they update in place, and on the process-wide
  random generator. The embedding keeps both visible:
  \<^item> arrays live in a heap, a list of objects addressed by position; \<open>numpy.empty\<close>,
    \<open>numpy.zeros\<close>, \<open>.copy()\<close> and arithmetic on arrays allocate a new object at the end
    of the heap, an indexed assignment updates the object in place;
  \<^item> the random generator is a set of streams fixed in advance (the floats of
    \<open>rand\<close>, the values of \<open>uniform\<close> and raw integers) and a counter of the values
    drawn so far;
  \<^item> an exception is the result \<open>Inl e\<close>; the state reached when it was raised is kept;
  \<^item> a float64 is the real number it stands for, and every float64 operation of the
    source rounds its exact result to the nearest float64 (\<open>round64\<close> below).
  The element type of the output array (\<open>gene_type\<close>, \<open>gene_type_single\<close>) only selects
  the numpy dtype; genes are values of a type \<open>'g\<close>, and both branches of that test
  allocate the same array here.
\<close>

subsection \<open>float64 arithmetic\<close>

text \<open>
  IEEE 754 binary64 with the default rounding: the exact result of an operation is
  rounded to the nearest number with a significand of 53 bits, and to the one with an even
  significand when two are equally near. \<open>binade x\<close> is the exponent of \<open>x\<close>, \<open>ulp x\<close> the
  distance between neighbouring float64 numbers around \<open>x\<close>. Overflow, subnormal numbers,
  infinities and NaN are not modelled: the exponent is not bounded.
\<close>

definition binade :: "real \<Rightarrow> int" where
  "binade x = \<lfloor>log 2 \<bar>x\<bar>\<rfloor>"

definition ulp :: "real \<Rightarrow> real" where
  "ulp x = 2 powr real_of_int (binade x - 52)"

definition round_half_even :: "real \<Rightarrow> int" where
  "round_half_even q =
     (let f = \<lfloor>q\<rfloor> in
      if q - of_int f < 1/2 then f
      else if q - of_int f > 1/2 then f + 1
      else if even f then f else f + 1)"

definition round64 :: "real \<Rightarrow> real" where
  "round64 x = (if x = 0 then 0 else of_int (round_half_even (x / ulp x)) * ulp x)"

definition fadd64 :: "real \<Rightarrow> real \<Rightarrow> real" where
  "fadd64 a b = round64 (a + b)"


definition fdiv64 :: "real \<Rightarrow> real \<Rightarrow> real" where
  "fdiv64 a b = round64 (a / b)"

subsection \<open>State, errors and the monad of the methods\<close>

datatype error = ZeroDivisionError | IndexError | ValueError | TypeError | UnboundLocalError

type_synonym addr = nat

text \<open>
  A one-dimensional float array, a two-dimensional float array (the fitness of a
  multi-objective problem) or a two-dimensional array of genes. A row of a gene array is
  \<open>None\<close> while it holds what \<open>numpy.empty\<close> left there.
\<close>

datatype 'g obj = FArr "real list" | FMat "real list list" | GArr "'g list option list"

record 'g state =
  heap :: "'g obj list"
  rand_floats :: "nat \<Rightarrow> real"
  rand_uniform :: "nat \<Rightarrow> real \<Rightarrow> real \<Rightarrow> real"
  rand_ints :: "nat \<Rightarrow> nat"
  drawn :: nat

type_synonym ('g, 'a) m = "'g state \<Rightarrow> (error + 'a) \<times> 'g state"

definition ret :: "'a \<Rightarrow> ('g, 'a) m" where
  "ret x s = (Inr x, s)"

definition raise :: "error \<Rightarrow> ('g, 'a) m" where
  "raise e s = (Inl e, s)"

definition bnd :: "('g, 'a) m \<Rightarrow> ('a \<Rightarrow> ('g, 'b) m) \<Rightarrow> ('g, 'b) m" where
  "bnd f g s = (case f s of (Inl e, s') \<Rightarrow> (Inl e, s') | (Inr x, s') \<Rightarrow> g x s')"

text \<open>\<open>for x in xs: acc = body(x, acc)\<close>.\<close>

fun for_each :: "'i list \<Rightarrow> ('i \<Rightarrow> 'a \<Rightarrow> ('g, 'a) m) \<Rightarrow> 'a \<Rightarrow> ('g, 'a) m" where
  "for_each [] body acc = ret acc"
| "for_each (x # xs) body acc = bnd (body x acc) (for_each xs body)"

subsection \<open>numpy and Python primitives\<close>

definition alloc :: "'g obj \<Rightarrow> ('g, addr) m" where
  "alloc v s = (Inr (length (heap s)), s\<lparr>heap := heap s @ [v]\<rparr>)"

definition read_farr :: "addr \<Rightarrow> ('g, real list) m" where
  "read_farr a s =
     (if a < length (heap s) then
        (case heap s ! a of FArr xs \<Rightarrow> ret xs s | _ \<Rightarrow> raise TypeError s)
      else raise TypeError s)"

definition read_fmat :: "addr \<Rightarrow> ('g, real list list) m" where
  "read_fmat a s =
     (if a < length (heap s) then
        (case heap s ! a of FMat xs \<Rightarrow> ret xs s | _ \<Rightarrow> raise TypeError s)
      else raise TypeError s)"

definition read_garr :: "addr \<Rightarrow> ('g, 'g list option list) m" where
  "read_garr a s =
     (if a < length (heap s) then
        (case heap s ! a of GArr rows \<Rightarrow> ret rows s | _ \<Rightarrow> raise TypeError s)
      else raise TypeError s)"

text \<open>\<open>xs[i]\<close> on a Python list or a numpy array, for an index that is not negative.\<close>

definition getitem :: "'a list \<Rightarrow> nat \<Rightarrow> ('g, 'a) m" where
  "getitem xs i = (if i < length xs then ret (xs ! i) else raise IndexError)"

text \<open>\<open>a[i] = v\<close> on a float array.\<close>

definition setitem_farr :: "addr \<Rightarrow> nat \<Rightarrow> real \<Rightarrow> ('g, unit) m" where
  "setitem_farr a i v =
     bnd (read_farr a) (\<lambda>xs.
       if i < length xs then (\<lambda>s. (Inr (), s\<lparr>heap := (heap s)[a := FArr (xs[i := v])]\<rparr>))
       else raise IndexError)"

text \<open>\<open>a[i, :]\<close> read from a gene array; \<open>.copy()\<close> of the row is the value read.\<close>

definition getrow :: "addr \<Rightarrow> nat \<Rightarrow> ('g, 'g list option) m" where
  "getrow a i = bnd (read_garr a) (\<lambda>rows. getitem rows i)"

text \<open>\<open>a[i, :] = row\<close> on a gene array: the values of the row are stored in the array.\<close>

definition setrow :: "addr \<Rightarrow> nat \<Rightarrow> 'g list option \<Rightarrow> ('g, unit) m" where
  "setrow a i row =
     bnd (read_garr a) (\<lambda>rows.
       if i < length rows
       then (\<lambda>s. (Inr (), s\<lparr>heap := (heap s)[a := GArr (rows[i := row])]\<rparr>))
       else raise IndexError)"

text \<open>
  \<open>numpy.empty((num_parents, self.population.shape[1]), dtype=...)\<close>: reading the shape
  needs the population to be a two-dimensional array.
\<close>

definition numpy_empty :: "addr \<Rightarrow> nat \<Rightarrow> ('g, addr) m" where
  "numpy_empty population num_parents =
     bnd (read_garr population) (\<lambda>_. alloc (GArr (replicate num_parents None)))"

definition numpy_zeros :: "nat \<Rightarrow> ('g, addr) m" where
  "numpy_zeros n = alloc (FArr (replicate n 0))"

text \<open>\<open>numpy.min\<close> and \<open>numpy.max\<close> raise ValueError on an empty array.\<close>

definition numpy_min :: "real list \<Rightarrow> ('g, real) m" where
  "numpy_min xs = (case xs of [] \<Rightarrow> raise ValueError | x # ys \<Rightarrow> ret (fold min ys x))"

definition numpy_max :: "real list \<Rightarrow> ('g, real) m" where
  "numpy_max xs = (case xs of [] \<Rightarrow> raise ValueError | x # ys \<Rightarrow> ret (fold max ys x))"

text \<open>\<open>numpy.where(xs == v)[0][0]\<close>: the first position holding \<open>v\<close>.\<close>

fun first_index :: "'a list \<Rightarrow> 'a \<Rightarrow> nat option" where
  "first_index [] v = None"
| "first_index (x # xs) v =
     (if x = v then Some 0 else map_option Suc (first_index xs v))"

definition where_first :: "'a list \<Rightarrow> 'a \<Rightarrow> ('g, nat) m" where
  "where_first xs v = (case first_index xs v of None \<Rightarrow> raise IndexError | Some i \<Rightarrow> ret i)"

text \<open>\<open>numpy.random.rand()\<close>: the next float of the generator, in \<open>[0, 1)\<close>.\<close>

definition numpy_random_rand :: "('g, real) m" where
  "numpy_random_rand s = (Inr (rand_floats s (drawn s)), s\<lparr>drawn := Suc (drawn s)\<rparr>)"

text \<open>
  \<open>numpy.random.uniform(low, high)\<close>: the next value of the generator for that interval;
  numpy documents it to lie in \<open>[low, high)\<close>.
\<close>

definition numpy_random_uniform :: "real \<Rightarrow> real \<Rightarrow> ('g, real) m" where
  "numpy_random_uniform low high s =
     (Inr (rand_uniform s (drawn s) low high), s\<lparr>drawn := Suc (drawn s)\<rparr>)"

text \<open>
  \<open>numpy.random.randint(low=0, high=high, size=size)\<close>: an empty request returns an empty
  array, an empty interval raises ValueError, otherwise that many raw integers are drawn
  and each is reduced into \<open>[0, high)\<close>.
\<close>

definition numpy_random_randint :: "nat \<Rightarrow> nat \<Rightarrow> ('g, nat list) m" where
  "numpy_random_randint high n =
     (if n = 0 then ret []
      else if high = 0 then raise ValueError
      else (\<lambda>s. (Inr (map (\<lambda>j. rand_ints s (drawn s + j) mod high) [0..<n]),
                  s\<lparr>drawn := drawn s + n\<rparr>)))"

subsection \<open>The object the methods belong to\<close>

record ga =
  population :: addr
  sol_per_pop :: nat
  K_tournament :: nat
  num_parents_mating :: nat

subsection \<open>wheel\_cumulative\_probs\<close>

definition sentinel :: real where
  "sentinel = 99999999999"

text \<open>
  One pass of the loop of lines 168-173; the variable \<open>curr\<close> of the source is \<open>cur\<close>,
  carried through the loop. \<open>curr + probs[min_probs_idx]\<close> is a float64 addition.
\<close>

definition wheel_step :: "addr \<Rightarrow> addr \<Rightarrow> addr \<Rightarrow> nat \<Rightarrow> real \<Rightarrow> ('g, real) m" where
  "wheel_step probs probs_start probs_end _ cur =
     bnd (read_farr probs) (\<lambda>ps.
     bnd (numpy_min ps) (\<lambda>mn.
     bnd (where_first ps mn) (\<lambda>min_probs_idx.
     bnd (setitem_farr probs_start min_probs_idx cur) (\<lambda>_.
     bnd (getitem ps min_probs_idx) (\<lambda>p.
     bnd (setitem_farr probs_end min_probs_idx (fadd64 cur p)) (\<lambda>_.
     bnd (setitem_farr probs min_probs_idx sentinel) (\<lambda>_.
     ret (fadd64 cur p))))))))"

definition wheel_cumulative_probs ::
  "ga \<Rightarrow> addr \<Rightarrow> nat \<Rightarrow> ('g, addr \<times> addr \<times> addr) m" where
  "wheel_cumulative_probs self probs num_parents =
     bnd (read_farr probs) (\<lambda>ps.
     bnd (numpy_zeros (length ps)) (\<lambda>probs_start.
     bnd (numpy_zeros (length ps)) (\<lambda>probs_end.
     bnd (for_each [0..<length ps] (wheel_step probs probs_start probs_end) 0) (\<lambda>_.
     bnd (numpy_empty (population self) num_parents) (\<lambda>parents.
     ret (probs_start, probs_end, parents))))))"


text \<open>\<open>a.copy()\<close> of a float array.\<close>

definition numpy_copy :: "addr \<Rightarrow> ('g, addr) m" where
  "numpy_copy a = bnd (read_farr a) (\<lambda>xs. alloc (FArr xs))"

text \<open>\<open>xs[indices]\<close> with an array of indices.\<close>

fun take_indices :: "'a list \<Rightarrow> nat list \<Rightarrow> ('g, 'a list) m" where
  "take_indices xs [] = ret []"
| "take_indices xs (i # is) =
     bnd (getitem xs i) (\<lambda>x. bnd (take_indices xs is) (\<lambda>ys. ret (x # ys)))"

text \<open>\<open>xs.index(v)\<close> on a Python list raises ValueError when \<open>v\<close> is absent.\<close>

definition list_index :: "'a list \<Rightarrow> 'a \<Rightarrow> ('g, nat) m" where
  "list_index xs v = (case first_index xs v of None \<Rightarrow> raise ValueError | Some i \<Rightarrow> ret i)"

subsection \<open>steady\_state\_selection\<close>


subsection \<open>rank\_selection and roulette\_wheel\_selection\<close>

text \<open>
  The inner loop of lines 59-66 and 142-146 looks for the first \<open>idx\<close> whose range holds
  the random number and leaves with \<open>break\<close>; when no range holds it, the pass changes
  nothing. \<open>to_index\<close> is the translation of \<open>idx\<close> into an index of the population.
\<close>

definition spin ::
  "ga \<Rightarrow> addr \<Rightarrow> addr \<Rightarrow> addr \<Rightarrow> addr \<Rightarrow> (nat \<Rightarrow> ('g, nat) m) \<Rightarrow> real \<Rightarrow> nat \<Rightarrow> nat list
     \<Rightarrow> ('g, nat list) m" where
  "spin self probs probs_start probs_end parents to_index rand_prob parent_num parents_indices =
     bnd (read_farr probs) (\<lambda>ps.
     bnd (read_farr probs_start) (\<lambda>st.
     bnd (read_farr probs_end) (\<lambda>en.
     case find (\<lambda>idx. rand_prob \<ge> st ! idx \<and> rand_prob < en ! idx) [0..<length ps] of
       None \<Rightarrow> ret parents_indices
     | Some idx \<Rightarrow>
         bnd (to_index idx) (\<lambda>mapped_idx.
         bnd (getrow (population self) mapped_idx) (\<lambda>row.
         bnd (setrow parents parent_num row) (\<lambda>_.
         ret (parents_indices @ [mapped_idx])))))))"

definition rank_selection :: "ga \<Rightarrow> addr \<Rightarrow> nat \<Rightarrow> ('g, addr \<times> nat list) m" where
  "rank_selection self fitness num_parents =
     bnd (read_farr fitness) (\<lambda>fit.
     let fitness_sorted = sort_key (\<lambda>k. fit ! k) [0..<length fit];
         rank = [1..<sol_per_pop self + 1] in
     bnd (alloc (FArr (map (\<lambda>r. fdiv64 (real r) (real (sum_list rank))) rank))) (\<lambda>probs.
     bnd (numpy_copy probs) (\<lambda>probs_copy.
     bnd (wheel_cumulative_probs self probs_copy num_parents) (\<lambda>(probs_start, probs_end, parents).
     bnd (for_each [0..<num_parents] (\<lambda>parent_num parents_indices.
            bnd numpy_random_rand (\<lambda>rand_prob.
            spin self probs probs_start probs_end parents (getitem fitness_sorted)
              rand_prob parent_num parents_indices)) []) (\<lambda>parents_indices.
     ret (parents, parents_indices))))))"

text \<open>
  \<open>numpy.sum\<close> belongs to the library and not to this module: it is the parameter
  \<open>numpy_sum\<close>, the float64 that the library returns for the sum of an array (for an
  array of floats it is a rounded sum, taken pairwise on long arrays). In \<open>rank_selection\<close>
  the array is one of integers and the sum is exact. \<open>fitness / fitness_sum\<close> divides
  entry by entry in float64. The call of \<open>self.logger.error\<close> before the \<open>raise\<close> is not
  modelled.
\<close>

definition roulette_wheel_selection ::
  "(real list \<Rightarrow> real) \<Rightarrow> ga \<Rightarrow> addr \<Rightarrow> nat \<Rightarrow> ('g, addr \<times> nat list) m" where
  "roulette_wheel_selection numpy_sum self fitness num_parents =
     bnd (read_farr fitness) (\<lambda>fit.
     let fitness_sum = numpy_sum fit in
     if fitness_sum = 0 then raise ZeroDivisionError
     else
     bnd (alloc (FArr (map (\<lambda>f. fdiv64 f fitness_sum) fit))) (\<lambda>probs.
     bnd (numpy_copy probs) (\<lambda>probs_copy.
     bnd (wheel_cumulative_probs self probs_copy num_parents) (\<lambda>(probs_start, probs_end, parents).
     bnd (for_each [0..<num_parents] (\<lambda>parent_num parents_indices.
            bnd numpy_random_rand (\<lambda>rand_prob.
            spin self probs probs_start probs_end parents ret
              rand_prob parent_num parents_indices)) []) (\<lambda>parents_indices.
     ret (parents, parents_indices))))))"

subsection \<open>random\_selection and tournament\_selection\<close>



subsection \<open>stochastic\_universal\_selection\<close>



subsection \<open>The NSGA-II selectors\<close>




text \<open>\<open>numpy.random.randint(low=0, high=high, size=(rows, cols))\<close>.\<close>

definition numpy_random_randint2 :: "nat \<Rightarrow> nat \<Rightarrow> nat \<Rightarrow> ('g, nat list list) m" where
  "numpy_random_randint2 high rows cols =
     bnd (numpy_random_randint high (rows * cols)) (\<lambda>flat.
     ret (map (\<lambda>i. take cols (drop (i * cols) flat)) [0..<rows]))"





section \<open>Definitions used in the proofs\<close>

definition is_float64 :: "real \<Rightarrow> bool" where
  "is_float64 x \<longleftrightarrow> (\<exists>k::int. x = of_int k * ulp x)"

definition wheel_pick :: "real list \<Rightarrow> nat" where
  "wheel_pick ps = the (first_index ps (fold min (tl ps) (hd ps)))"

fun wheel_pure :: "nat \<Rightarrow> real list \<times> real list \<times> real list \<times> real
                    \<Rightarrow> real list \<times> real list \<times> real list \<times> real" where
  "wheel_pure 0 x = x"
| "wheel_pure (Suc k) (ps, st, en, cur) =
     (let m = wheel_pick ps
      in wheel_pure k (ps[m := sentinel], st[m := cur], en[m := fadd64 cur (ps ! m)],
           fadd64 cur (ps ! m)))"

definition wheel_heap :: "addr \<Rightarrow> addr \<Rightarrow> addr \<Rightarrow> real list \<times> real list \<times> real list \<times> real \<Rightarrow> 'g state \<Rightarrow> 'g state" where
  "wheel_heap a b c x s = (case x of (ps, st, en, cur) \<Rightarrow>
      s\<lparr>heap := (heap s)[b := FArr st, c := FArr en, a := FArr ps]\<rparr>)"

definition prec :: "real list \<Rightarrow> nat \<Rightarrow> nat \<Rightarrow> bool" where
  "prec p i j \<longleftrightarrow> p ! i < p ! j \<or> (p ! i = p ! j \<and> i < j)"

definition wheel_inv :: "real list \<Rightarrow> nat list \<Rightarrow> real list \<times> real list \<times> real list \<times> real \<Rightarrow> bool" where
  "wheel_inv p order x = (case x of (ps, st, en, cur) \<Rightarrow>
     length ps = length p \<and> length st = length p \<and> length en = length p \<and>
     distinct order \<and> set order = {i. i < length p \<and> ps ! i = sentinel} \<and>
     (\<forall>i<length p. ps ! i \<noteq> sentinel \<longrightarrow> ps ! i = p ! i) \<and>
     (\<forall>i\<in>set order. \<forall>j<length p. j \<notin> set order \<longrightarrow> prec p i j) \<and>
     sorted_wrt (prec p) order \<and>
     (\<forall>m<length order.
        st ! (order ! m) = (if m = 0 then 0 else en ! (order ! (m - 1))) \<and>
        en ! (order ! m) = fadd64 (st ! (order ! m)) (p ! (order ! m))) \<and>
     cur = (if order = [] then 0 else en ! last order))"

definition wheel_of :: "real list \<Rightarrow> real list \<times> real list \<times> real list \<times> real" where
  "wheel_of p = wheel_pure (length p) (p, replicate (length p) 0, replicate (length p) 0, 0)"

subsection \<open>Frame of a computation\<close>

text \<open>
  \<open>frame n f Q\<close>: run from a heap of at least \<open>n\<close> objects, \<open>f\<close> leaves the first \<open>n\<close>
  objects as they are, whether it returns or raises, and a returned value satisfies \<open>Q\<close>.
\<close>

definition frame :: "nat \<Rightarrow> ('g, 'a) m \<Rightarrow> ('a \<Rightarrow> bool) \<Rightarrow> bool" where
  "frame n f Q \<longleftrightarrow>
     (\<forall>s r s'. n \<le> length (heap s) \<and> f s = (r, s') \<longrightarrow>
        n \<le> length (heap s') \<and> take n (heap s') = take n (heap s) \<and>
        (\<forall>x. r = Inr x \<longrightarrow> Q x))"


subsection \<open>Invariants of the array of parents\<close>









subsection \<open>Concrete inputs\<close>

definition d01 :: real where "d01 = 7205759403792794 / 2 ^ 56"

definition d02 :: real where "d02 = 7205759403792794 / 2 ^ 55"

definition d03 :: real where "d03 = 5404319552844596 / 2 ^ 54"

definition d07 :: real where "d07 = 6305039478318694 / 2 ^ 53"
definition ga_example :: ga where
  "ga_example = \<lparr>population = 0, sol_per_pop = 3, K_tournament = 2, num_parents_mating = 2\<rparr>"

definition wheel_state :: "nat state" where
  "wheel_state =
     \<lparr>heap = [GArr [Some [7], Some [8], Some [9]], FArr [1/2, 1/4, 1/4]],
      rand_floats = (\<lambda>_. 0), rand_uniform = (\<lambda>_ _ _. 0), rand_ints = (\<lambda>_. 0), drawn = 0\<rparr>"

definition rounding_state :: "nat state" where
  "rounding_state =
     \<lparr>heap = [GArr [Some [7], Some [8], Some [9]], FArr [d07, d02, d01]],
      rand_floats = (\<lambda>_. 0), rand_uniform = (\<lambda>_ _ _. 0), rand_ints = (\<lambda>_. 0), drawn = 0\<rparr>"
definition sum64 :: "real list \<Rightarrow> real" where
  "sum64 xs = foldl fadd64 0 xs"





section \<open>Lemmas\<close>


lemma binade_bounds:
  assumes "0 < x"
  shows "2 powr real_of_int (binade x) \<le> x" "x < 2 powr real_of_int (binade x + 1)"
  using floor_log_eq_powr_iff [of x 2 "binade x"] assms by (simp_all add: binade_def)

lemma binade_eq:
  assumes "0 < x" "2 powr real_of_int k \<le> x" "x < 2 powr real_of_int (k + 1)"
  shows "binade x = k"
  using floor_log_eq_powr_iff [of x 2 k] assms by (simp add: binade_def)

lemma binade_mono:
  assumes "0 < x" "x \<le> y"
  shows "binade x \<le> binade y"
proof -
  have "log 2 x \<le> log 2 y" using assms by simp
  then show ?thesis using assms by (simp add: binade_def floor_mono)
qed

lemma ulp_pos: "0 < ulp x"
  by (simp add: ulp_def)

lemma ulp_scale: "2 powr 52 * ulp x = 2 powr real_of_int (binade x)"
proof -
  have "2 powr 52 * ulp x = 2 powr (52 + real_of_int (binade x - 52))"
    unfolding ulp_def by (simp only: powr_add)
  also have "52 + real_of_int (binade x - 52) = real_of_int (binade x)" by simp
  finally show ?thesis .
qed

lemma ulp_scale2: "2 powr 53 * ulp x = 2 powr real_of_int (binade x + 1)"
proof -
  have "2 powr 53 * ulp x = 2 powr (53 + real_of_int (binade x - 52))"
    unfolding ulp_def by (simp only: powr_add)
  also have "53 + real_of_int (binade x - 52) = real_of_int (binade x + 1)" by simp
  finally show ?thesis .
qed

lemma two52: "(2::real) powr 52 = of_int (2 ^ 52)" "(2::real) powr 53 = of_int (2 ^ 53)"
  by simp_all

lemma round_half_even_bounds:
  "\<lfloor>q\<rfloor> \<le> round_half_even q" "round_half_even q \<le> \<lceil>q\<rceil>"
proof -
  show "\<lfloor>q\<rfloor> \<le> round_half_even q" by (simp add: round_half_even_def Let_def)
  have "\<lfloor>q\<rfloor> + 1 \<le> \<lceil>q\<rceil>" if "of_int \<lfloor>q\<rfloor> \<noteq> q"
    using that by (metis ceiling_altdef order_refl)
  moreover have "of_int \<lfloor>q\<rfloor> \<noteq> q" if "\<not> q - of_int \<lfloor>q\<rfloor> < 1/2" using that by auto
  moreover have "\<lfloor>q\<rfloor> \<le> \<lceil>q\<rceil>" by (rule floor_le_ceiling)
  ultimately show "round_half_even q \<le> \<lceil>q\<rceil>"
    by (auto simp: round_half_even_def Let_def)
qed

lemma round_half_even_ge:
  assumes "of_int k \<le> q"
  shows "k \<le> round_half_even q"
  using round_half_even_bounds(1) [of q] assms le_floor_iff [of k q] by linarith

lemma round_half_even_le:
  assumes "q \<le> of_int k"
  shows "round_half_even q \<le> k"
  using round_half_even_bounds(2) [of q] assms ceiling_le_iff [of q k] by linarith

lemma round64_pos_range:
  assumes "0 < x"
  shows "2 powr real_of_int (binade x) \<le> round64 x"
    and "round64 x \<le> 2 powr real_of_int (binade x + 1)"
proof -
  let ?q = "x / ulp x"
  have "2 powr 52 * ulp x \<le> x" using binade_bounds(1) [OF assms] by (simp only: ulp_scale)
  then have "2 powr 52 \<le> ?q" using ulp_pos [of x] by (simp add: pos_le_divide_eq)
  then have q1: "of_int (2 ^ 52) \<le> ?q" by (simp only: two52)
  have "x \<le> 2 powr 53 * ulp x" using binade_bounds(2) [OF assms] by (simp only: ulp_scale2)
  then have "?q \<le> 2 powr 53" using ulp_pos [of x] by (simp add: pos_divide_le_eq)
  then have q2: "?q \<le> of_int (2 ^ 53)" by (simp only: two52)
  have r: "round64 x = of_int (round_half_even ?q) * ulp x" using assms by (simp add: round64_def)
  have "of_int (2 ^ 52) \<le> (of_int (round_half_even ?q) :: real)"
    using round_half_even_ge [OF q1] by (simp only: of_int_le_iff)
  then have "of_int (2 ^ 52) * ulp x \<le> of_int (round_half_even ?q) * ulp x"
    using ulp_pos [of x] by (simp only: mult_le_cancel_right) simp
  then show "2 powr real_of_int (binade x) \<le> round64 x"
    unfolding r two52(1) [symmetric] ulp_scale .
  have "(of_int (round_half_even ?q) :: real) \<le> of_int (2 ^ 53)"
    using round_half_even_le [OF q2] by (simp only: of_int_le_iff)
  then have "of_int (round_half_even ?q) * ulp x \<le> of_int (2 ^ 53) * ulp x"
    using ulp_pos [of x] by (simp only: mult_le_cancel_right) simp
  then show "round64 x \<le> 2 powr real_of_int (binade x + 1)"
    unfolding r two52(2) [symmetric] ulp_scale2 .
qed

lemma round_half_even_of_int [simp]: "round_half_even (of_int n) = n"
  by (simp add: round_half_even_def)

lemma round64_float:
  assumes "is_float64 x"
  shows "round64 x = x"
proof (cases "x = 0")
  case True
  then show ?thesis by (simp add: round64_def)
next
  case False
  obtain k :: int where k: "x = of_int k * ulp x" using assms by (auto simp: is_float64_def)
  have "x / ulp x = of_int k" using k ulp_pos [of x] by (simp add: nonzero_divide_eq_eq)
  then show ?thesis using False k by (simp add: round64_def)
qed

lemma is_float64_one: "is_float64 1"
proof -
  have b: "binade 1 = 0" by (rule binade_eq) simp_all
  have "2 powr 52 * ulp 1 = 2 powr real_of_int (binade 1)" by (rule ulp_scale)
  then have "of_int (2 ^ 52) * ulp 1 = 1" by (simp only: two52 b) simp
  then show ?thesis unfolding is_float64_def by (metis)
qed

lemma round64_le_one:
  assumes "0 \<le> x" "x \<le> 1"
  shows "round64 x \<le> 1"
proof (cases "x = 0")
  case True
  then show ?thesis by (simp add: round64_def)
next
  case False
  then have pos: "0 < x" using assms by simp
  show ?thesis
  proof (cases "x = 1")
    case True
    then show ?thesis using round64_float [OF is_float64_one] by simp
  next
    case False
    then have x1: "x < 2 powr real_of_int 0" using assms by simp
    have "binade x + 1 \<le> 0"
    proof (rule ccontr)
      assume "\<not> binade x + 1 \<le> 0"
      then have "0 \<le> binade x" by simp
      then have "2 powr real_of_int 0 \<le> 2 powr real_of_int (binade x)"
        by (intro powr_mono) simp_all
      then show False using binade_bounds(1) [OF pos] x1 by linarith
    qed
    then have "2 powr real_of_int (binade x + 1) \<le> 2 powr real_of_int 0"
      by (intro powr_mono) simp_all
    then show ?thesis using round64_pos_range(2) [OF pos] by simp
  qed
qed

lemma ulp_cong: "binade x = binade y \<Longrightarrow> ulp x = ulp y"
  by (simp add: ulp_def)

lemma is_float64_zero [simp]: "is_float64 0"
  by (simp add: is_float64_def)

lemma round64_is_float:
  assumes "0 \<le> x"
  shows "is_float64 (round64 x)"
proof (cases "x = 0")
  case True
  then show ?thesis by (simp add: round64_def)
next
  case False
  then have pos: "0 < x" using assms by simp
  let ?q = "x / ulp x" and ?e = "binade x"
  let ?n = "round_half_even ?q"
  have r: "round64 x = of_int ?n * ulp x" using False by (simp add: round64_def)
  have lo: "2 powr real_of_int ?e \<le> round64 x" and hi: "round64 x \<le> 2 powr real_of_int (?e + 1)"
    using round64_pos_range [OF pos] by simp_all
  have rpos: "0 < round64 x" using lo powr_gt_zero [of 2 "real_of_int ?e"] by linarith
  show ?thesis
  proof (cases "round64 x = 2 powr real_of_int (?e + 1)")
    case True
    have up: "2 powr real_of_int (?e + 1) < 2 powr real_of_int (?e + 1 + 1)"
      by (intro powr_less_mono) simp_all
    have b: "binade (round64 x) = ?e + 1"
    proof (rule binade_eq)
      show "0 < round64 x" by (rule rpos)
      show "2 powr real_of_int (?e + 1) \<le> round64 x" using True by simp
      show "round64 x < 2 powr real_of_int (?e + 1 + 1)" using True up by simp
    qed
    have "of_int (2 ^ 52) * ulp (round64 x) = 2 powr real_of_int (binade (round64 x))"
      using ulp_scale [of "round64 x"] by (simp only: two52)
    also have "\<dots> = 2 powr real_of_int (?e + 1)" by (simp only: b)
    also have "\<dots> = round64 x" using True by simp
    finally have "round64 x = of_int (2 ^ 52) * ulp (round64 x)" by simp
    then show ?thesis unfolding is_float64_def by blast
  next
    case False
    then have "round64 x < 2 powr real_of_int (?e + 1)" using hi by simp
    then have "binade (round64 x) = ?e" using lo rpos by (intro binade_eq)
    then have "ulp (round64 x) = ulp x" by (rule ulp_cong)
    then have "round64 x = of_int ?n * ulp (round64 x)" using r by simp
    then show ?thesis unfolding is_float64_def by blast
  qed
qed

lemma round64_add_ge:
  assumes c: "is_float64 c" "0 \<le> c" and p: "0 \<le> p"
  shows "c \<le> round64 (c + p)"
proof (cases "c = 0")
  case True
  show ?thesis
  proof (cases "p = 0")
    case True
    then show ?thesis using \<open>c = 0\<close> by (simp add: round64_def)
  next
    case False
    then have "0 < c + p" using p \<open>c = 0\<close> by simp
    from round64_pos_range(1) [OF this] have "0 < round64 (c + p)"
      using powr_gt_zero [of 2 "real_of_int (binade (c + p))"] by linarith
    then show ?thesis using \<open>c = 0\<close> by simp
  qed
next
  case False
  then have cpos: "0 < c" using c by simp
  then have ypos: "0 < c + p" using p by simp
  let ?y = "c + p"
  have mono: "binade c \<le> binade ?y" using binade_mono [OF cpos, of ?y] p by simp
  show ?thesis
  proof (cases "binade c = binade ?y")
    case True
    then have u: "ulp c = ulp ?y" by (rule ulp_cong)
    obtain k :: int where k: "c = of_int k * ulp c" using c(1) by (auto simp: is_float64_def)
    have "of_int k * ulp ?y \<le> ?y" using k u p by simp
    then have "of_int k \<le> ?y / ulp ?y" using ulp_pos [of ?y] by (simp add: pos_le_divide_eq)
    then have "k \<le> round_half_even (?y / ulp ?y)" by (rule round_half_even_ge)
    then have "(of_int k :: real) \<le> of_int (round_half_even (?y / ulp ?y))" by simp
    then have "of_int k * ulp ?y \<le> of_int (round_half_even (?y / ulp ?y)) * ulp ?y"
      using ulp_pos [of ?y] by (simp only: mult_le_cancel_right) simp
    then show ?thesis using k u ypos by (simp add: round64_def)
  next
    case False
    then have "binade c + 1 \<le> binade ?y" using mono by simp
    then have "2 powr real_of_int (binade c + 1) \<le> 2 powr real_of_int (binade ?y)"
      by (intro powr_mono) simp_all
    then show ?thesis
      using binade_bounds(2) [OF cpos] round64_pos_range(1) [OF ypos] by linarith
  qed
qed

lemma fadd64_grows:
  assumes "is_float64 c" "0 \<le> c" "0 \<le> p"
  shows "c \<le> fadd64 c p" "is_float64 (fadd64 c p)" "0 \<le> fadd64 c p"
proof -
  show 1: "c \<le> fadd64 c p" unfolding fadd64_def using assms by (rule round64_add_ge)
  show "is_float64 (fadd64 c p)" unfolding fadd64_def using assms by (intro round64_is_float) simp
  show "0 \<le> fadd64 c p" using 1 assms(2) by simp
qed

lemma fdiv64_le_one:
  assumes "0 \<le> a" "a \<le> b" "0 < b"
  shows "fdiv64 a b \<le> 1"
  unfolding fdiv64_def using assms by (intro round64_le_one) simp_all

lemma bnd_ret [simp]: "bnd (ret x) f = f x"
  by (rule ext) (simp add: bnd_def ret_def)

lemma bnd_raise [simp]: "bnd (raise e) f = raise e"
  by (rule ext) (simp add: bnd_def raise_def)

lemma fold_min_Min: "fold min ys (x::real) = Min (set (x # ys))"
  by (rule Min.set_eq_fold [symmetric])

lemma first_index_Some:
  "first_index xs v = Some i \<longleftrightarrow> i < length xs \<and> xs ! i = v \<and> (\<forall>j<i. xs ! j \<noteq> v)"
proof (induction xs arbitrary: i)
  case Nil
  then show ?case by simp
next
  case (Cons x xs)
  show ?case
  proof (cases "x = v")
    case True
    then show ?thesis by (cases i) auto
  next
    case False
    show ?thesis
    proof (cases i)
      case 0
      with False show ?thesis by auto
    next
      case (Suc k)
      have "(\<forall>j<Suc k. (x # xs) ! j \<noteq> v) \<longleftrightarrow> (\<forall>j<k. xs ! j \<noteq> v)"
        using False by (auto simp: less_Suc_eq_0_disj)
      with Suc False Cons.IH [of k] show ?thesis by auto
    qed
  qed
qed

lemma first_index_None: "first_index xs v = None \<longleftrightarrow> v \<notin> set xs"
  by (induction xs) auto

lemma wheel_pick_props:
  assumes "ps \<noteq> []"
  shows "wheel_pick ps < length ps"
    and "\<forall>j<length ps. ps ! wheel_pick ps \<le> ps ! j"
    and "\<forall>j<wheel_pick ps. ps ! wheel_pick ps < ps ! j"
    and "first_index ps (fold min (tl ps) (hd ps)) = Some (wheel_pick ps)"
proof -
  obtain x ys where ps: "ps = x # ys" using assms by (cases ps) auto
  let ?m = "fold min (tl ps) (hd ps)"
  have m: "?m = Min (set ps)" by (simp add: ps fold_min_Min)
  then have "?m \<in> set ps" using assms by (metis List.finite_set Min_in set_empty)
  then obtain i where i: "first_index ps ?m = Some i"
    by (cases "first_index ps ?m") (auto simp: first_index_None)
  then have wp: "wheel_pick ps = i" by (simp add: wheel_pick_def)
  from i have props: "i < length ps" "ps ! i = ?m" "\<forall>j<i. ps ! j \<noteq> ?m"
    by (auto simp: first_index_Some)
  have le: "?m \<le> ps ! j" if "j < length ps" for j
    using that m by (simp add: assms)
  show "wheel_pick ps < length ps" using wp props by simp
  show "\<forall>j<length ps. ps ! wheel_pick ps \<le> ps ! j" using wp props le by simp
  show "\<forall>j<wheel_pick ps. ps ! wheel_pick ps < ps ! j"
  proof (intro allI impI)
    fix j assume "j < wheel_pick ps"
    then have "j < i" using wp by simp
    then have "ps ! j \<noteq> ?m" "?m \<le> ps ! j" using props le by auto
    then show "ps ! wheel_pick ps < ps ! j" using wp props by simp
  qed
  show "first_index ps ?m = Some (wheel_pick ps)" using i wp by simp
qed

lemma wheel_step_pure:
  assumes "a < length (heap s)" "b < length (heap s)" "c < length (heap s)"
    and "a \<noteq> b" "a \<noteq> c" "b \<noteq> c"
    and "heap s ! a = FArr ps" "heap s ! b = FArr st" "heap s ! c = FArr en"
    and "length st = length ps" "length en = length ps" "ps \<noteq> []"
  shows "wheel_step a b c k cur s =
         (Inr (fadd64 cur (ps ! wheel_pick ps)),
          s\<lparr>heap := (heap s)[b := FArr (st[wheel_pick ps := cur]),
                              c := FArr (en[wheel_pick ps := fadd64 cur (ps ! wheel_pick ps)]),
                              a := FArr (ps[wheel_pick ps := sentinel])]\<rparr>)"
proof -
  obtain x ys where ps: "ps = x # ys" using assms(12) by (cases ps) auto
  note wp = wheel_pick_props [OF assms(12)]
  show ?thesis
    using assms wp(1) wp(4)
    by (simp add: wheel_step_def bnd_def read_farr_def numpy_min_def where_first_def
        setitem_farr_def getitem_def ret_def raise_def ps)
qed

lemma upd3_overwrite:
  assumes "a \<noteq> b" "a \<noteq> c" "b \<noteq> c"
  shows "(h[b := x, c := y, a := z])[b := x', c := y', a := z'] = h[b := x', c := y', a := z']"
proof (rule nth_equalityI)
  show "length ((h[b := x, c := y, a := z])[b := x', c := y', a := z']) =
        length (h[b := x', c := y', a := z'])" by simp
next
  fix i assume "i < length ((h[b := x, c := y, a := z])[b := x', c := y', a := z'])"
  then have i: "i < length h" by simp
  show "(h[b := x, c := y, a := z])[b := x', c := y', a := z'] ! i = h[b := x', c := y', a := z'] ! i"
    using assms i by (cases "i = a"; cases "i = b"; cases "i = c"; simp)
qed

lemma wheel_loop_pure:
  assumes "a < length (heap s)" "b < length (heap s)" "c < length (heap s)"
    and "a \<noteq> b" "a \<noteq> c" "b \<noteq> c"
    and "heap s ! a = FArr ps" "heap s ! b = FArr st" "heap s ! c = FArr en"
    and "length st = length ps" "length en = length ps" "is \<noteq> [] \<longrightarrow> ps \<noteq> []"
  shows "for_each is (wheel_step a b c) cur s =
         (Inr (snd (snd (snd (wheel_pure (length is) (ps, st, en, cur))))),
          wheel_heap a b c (wheel_pure (length is) (ps, st, en, cur)) s)"
  using assms
proof (induction "is" arbitrary: s ps st en cur)
  case Nil
  have "(heap s)[b := heap s ! b, c := heap s ! c, a := heap s ! a] = heap s"
    by simp
  then have "(heap s)[b := FArr st, c := FArr en, a := FArr ps] = heap s"
    using Nil.prems(7-9) by simp
  then show ?case by (simp add: ret_def wheel_heap_def)
next
  case (Cons i "is")
  let ?m = "wheel_pick ps"
  let ?c = "fadd64 cur (ps ! ?m)"
  let ?ps = "ps[?m := sentinel]" and ?st = "st[?m := cur]" and ?en = "en[?m := ?c]"
  let ?s = "s\<lparr>heap := (heap s)[b := FArr ?st, c := FArr ?en, a := FArr ?ps]\<rparr>"
  have ne: "ps \<noteq> []" using Cons.prems by simp
  have step: "wheel_step a b c i cur s = (Inr ?c, ?s)"
    using Cons.prems ne by (intro wheel_step_pure) auto
  have IH: "for_each is (wheel_step a b c) ?c ?s =
         (Inr (snd (snd (snd (wheel_pure (length is) (?ps, ?st, ?en, ?c))))),
          wheel_heap a b c (wheel_pure (length is) (?ps, ?st, ?en, ?c)) ?s)"
    using Cons.prems ne by (intro Cons.IH) auto
  have heap_eq: "wheel_heap a b c x ?s = wheel_heap a b c x s" for x
    using Cons.prems(4-6) by (cases x) (simp add: wheel_heap_def upd3_overwrite)
  show ?case
    by (simp add: bnd_def step IH heap_eq Let_def)
qed

lemma wheel_inv_init:
  "wheel_inv p [] (p, replicate (length p) 0, replicate (length p) 0, 0) \<longleftrightarrow>
   (\<forall>i<length p. p ! i \<noteq> sentinel)"
  by (auto simp: wheel_inv_def)

lemma wheel_inv_step:
  assumes lt: "\<forall>x\<in>set p. x < sentinel"
    and inv: "wheel_inv p order (ps, st, en, cur)" and k: "length order < length p"
  shows "wheel_inv p (order @ [wheel_pick ps])
           (ps[wheel_pick ps := sentinel], st[wheel_pick ps := cur],
            en[wheel_pick ps := fadd64 cur (ps ! wheel_pick ps)], fadd64 cur (ps ! wheel_pick ps))"
proof -
  let ?n = "length p" and ?m = "wheel_pick ps" and ?k = "length order"
  let ?c = "fadd64 cur (ps ! ?m)"
  from inv have len: "length ps = ?n" "length st = ?n" "length en = ?n"
    and dist: "distinct order"
    and set: "set order = {i. i < ?n \<and> ps ! i = sentinel}"
    and un: "\<And>i. i < ?n \<Longrightarrow> ps ! i \<noteq> sentinel \<Longrightarrow> ps ! i = p ! i"
    and ord: "\<And>i j. i \<in> set order \<Longrightarrow> j < ?n \<Longrightarrow> j \<notin> set order \<Longrightarrow> prec p i j"
    and sw: "sorted_wrt (prec p) order"
    and chain: "\<And>m. m < ?k \<Longrightarrow>
        st ! (order ! m) = (if m = 0 then 0 else en ! (order ! (m - 1))) \<and>
        en ! (order ! m) = fadd64 (st ! (order ! m)) (p ! (order ! m))"
    and cur: "cur = (if order = [] then 0 else en ! last order)"
    unfolding wheel_inv_def by simp_all
  have "\<exists>j<?n. j \<notin> set order"
  proof (rule ccontr)
    assume "\<not> (\<exists>j<?n. j \<notin> set order)"
    then have "{..<?n} \<subseteq> set order" by auto
    then have "card {..<?n} \<le> card (set order)" by (intro card_mono) simp_all
    then show False using k distinct_card [OF dist] by simp
  qed
  then obtain j0 where j0: "j0 < ?n" "ps ! j0 \<noteq> sentinel" using set by blast
  have "length ps \<noteq> 0" using len(1) k by linarith
  then have ne: "ps \<noteq> []" by simp
  note wp = wheel_pick_props [OF ne]
  have m: "?m < ?n" using wp(1) len by simp
  have p_lt: "p ! i < sentinel" if "i < ?n" for i using lt that by simp
  have "ps ! ?m \<le> ps ! j0" using wp(2) j0 len by simp
  also have "\<dots> = p ! j0" using un j0 by simp
  also have "\<dots> < sentinel" using p_lt j0 by simp
  finally have m_un: "ps ! ?m \<noteq> sentinel" by simp
  then have pm: "ps ! ?m = p ! ?m" using un m by simp
  have mo: "?m \<notin> set order" using m_un set by simp
  have m_first: "prec p ?m j" if j: "j < ?n" "ps ! j \<noteq> sentinel" "j \<noteq> ?m" for j
  proof -
    have "ps ! ?m \<le> ps ! j" using wp(2) j(1) len by simp
    then have a: "p ! ?m \<le> p ! j" using pm un [OF j(1,2)] by simp
    show ?thesis
    proof (cases "j < ?m")
      case True
      then have "ps ! ?m < ps ! j" using wp(3) by simp
      then show ?thesis using pm un [OF j(1,2)] by (simp add: prec_def)
    next
      case False
      then have "?m < j" using j(3) by simp
      then show ?thesis using a by (auto simp: prec_def)
    qed
  qed
  let ?ps = "ps[?m := sentinel]" and ?st = "st[?m := cur]" and ?en = "en[?m := ?c]"
  let ?order = "order @ [?m]"
  have 1: "distinct ?order" using dist mo by simp
  have 2: "set ?order = {i. i < ?n \<and> ?ps ! i = sentinel}"
    using set m len by (auto simp: nth_list_update)
  have 3: "?ps ! i = p ! i" if "i < ?n" "?ps ! i \<noteq> sentinel" for i
  proof -
    have "i \<noteq> ?m" using that m len by auto
    then show ?thesis using that un by simp
  qed
  have 4: "prec p i j" if "i \<in> set ?order" "j < ?n" "j \<notin> set ?order" for i j
  proof (cases "i = ?m")
    case True
    have "ps ! j \<noteq> sentinel" using that(2,3) set by auto
    then show ?thesis using m_first that True by simp
  next
    case False
    then show ?thesis using that ord by simp
  qed
  have 5: "sorted_wrt (prec p) ?order"
    using sw ord m mo by (simp add: sorted_wrt_append)
  have old: "order ! i \<noteq> ?m" if "i < ?k" for i using that mo nth_mem by metis
  have 6: "?st ! (?order ! i) = (if i = 0 then 0 else ?en ! (?order ! (i - 1))) \<and>
           ?en ! (?order ! i) = fadd64 (?st ! (?order ! i)) (p ! (?order ! i))"
    if i: "i < length ?order" for i
  proof (cases "i < ?k")
    case True
    have a: "?order ! i = order ! i" using True by (simp add: nth_append)
    have "i - 1 < ?k" using True by simp
    then have b: "?order ! (i - 1) = order ! (i - 1)" by (simp only: nth_append if_True)
    have c: "order ! (i - 1) \<noteq> ?m" using old [of "i - 1"] True by simp
    have sa: "?st ! (order ! i) = st ! (order ! i)" using old [OF True] by simp
    have ea: "?en ! (order ! i) = en ! (order ! i)" using old [OF True] by simp
    have eb: "?en ! (order ! (i - 1)) = en ! (order ! (i - 1))" using c by simp
    show ?thesis unfolding a b sa ea eb using chain [OF True] .
  next
    case False
    then have ik: "i = ?k" using i by simp
    have a: "?order ! i = ?m" using ik by simp
    have s1: "?st ! ?m = cur" and e1: "?en ! ?m = ?c" using m len by simp_all
    show ?thesis
    proof (cases "order = []")
      case True
      then show ?thesis using ik cur s1 e1 pm a by simp
    next
      case False
      then have kpos: "0 < ?k" by simp
      have b: "?order ! (i - 1) = last order"
        using False ik by (simp add: nth_append last_conv_nth)
      have "last order \<in> set order" using False by simp
      then have "last order \<noteq> ?m" using mo by auto
      then have "?en ! (?order ! (i - 1)) = en ! last order" using b by simp
      then show ?thesis using ik cur s1 e1 pm a False kpos by simp
    qed
  qed
  have 7: "?c = (if ?order = [] then 0 else ?en ! last ?order)" using m len by simp
  show ?thesis
    unfolding wheel_inv_def using len 1 2 3 4 5 6 7 by simp
qed

lemma wheel_inv_run:
  assumes "\<forall>x\<in>set p. x < sentinel"
  shows "wheel_inv p order x \<Longrightarrow> length order + k \<le> length p \<Longrightarrow>
         \<exists>order'. length order' = length order + k \<and> wheel_inv p order' (wheel_pure k x)"
proof (induction k arbitrary: order x)
  case 0
  then show ?case by auto
next
  case (Suc k)
  obtain ps st en cur where x: "x = (ps, st, en, cur)" by (cases x) auto
  let ?m = "wheel_pick ps"
  have "wheel_inv p (order @ [?m]) (ps[?m := sentinel], st[?m := cur],
            en[?m := fadd64 cur (ps ! ?m)], fadd64 cur (ps ! ?m))"
    using Suc.prems assms x by (intro wheel_inv_step) auto
  from Suc.IH [OF this] Suc.prems(2) show ?case by (simp add: x Let_def)
qed

lemma wheel_pure_length:
  "wheel_pure k (ps, st, en, cur) = (ps', st', en', cur') \<Longrightarrow>
   length ps' = length ps \<and> length st' = length st \<and> length en' = length en"
  by (induction k arbitrary: ps st en cur) (auto simp: Let_def)

lemma wheel_of_length:
  assumes "wheel_of p = (ps, st, en, cur)"
  shows "length ps = length p" "length st = length p" "length en = length p"
  using wheel_pure_length [OF assms [unfolded wheel_of_def]] by simp_all

lemma wheel_of_inv:
  assumes lt: "\<forall>x\<in>set p. x < sentinel"
  shows "\<exists>order. length order = length p \<and> wheel_inv p order (wheel_of p)"
proof -
  have "\<forall>i<length p. p ! i \<noteq> sentinel" using lt by (metis nth_mem order_less_irrefl)
  then have "wheel_inv p [] (p, replicate (length p) 0, replicate (length p) 0, 0)"
    by (simp only: wheel_inv_init)
  from wheel_inv_run [OF lt this, of "length p"] show ?thesis by (simp add: wheel_of_def)
qed

lemma wheel_of_props:
  assumes lt: "\<forall>x\<in>set p. x < sentinel" and w: "wheel_of p = (ps, st, en, cur)"
  obtains order where "length order = length p" "distinct order" "set order = {..<length p}"
    "sorted_wrt (prec p) order"
    "\<And>m. m < length p \<Longrightarrow>
        st ! (order ! m) = (if m = 0 then 0 else en ! (order ! (m - 1))) \<and>
        en ! (order ! m) = fadd64 (st ! (order ! m)) (p ! (order ! m))"
    "ps = replicate (length p) sentinel"
proof -
  let ?n = "length p"
  obtain order where lo: "length order = ?n" and inv: "wheel_inv p order (ps, st, en, cur)"
    using wheel_of_inv [OF lt] w by auto
  from inv have len: "length ps = ?n"
    and dist: "distinct order"
    and set: "set order = {i. i < ?n \<and> ps ! i = sentinel}"
    and sw: "sorted_wrt (prec p) order"
    and chain: "\<And>m. m < length order \<Longrightarrow>
        st ! (order ! m) = (if m = 0 then 0 else en ! (order ! (m - 1))) \<and>
        en ! (order ! m) = fadd64 (st ! (order ! m)) (p ! (order ! m))"
    unfolding wheel_inv_def by simp_all
  have sub: "set order \<subseteq> {..<?n}" using set by auto
  have "card (set order) = ?n" using distinct_card [OF dist] lo by simp
  then have all: "set order = {..<?n}" using sub by (intro card_subset_eq) simp_all
  then have "ps ! i = sentinel" if "i < ?n" for i using set that by blast
  then have ps: "ps = replicate ?n sentinel" using len by (auto simp: list_eq_iff_nth_eq)
  show ?thesis using that [OF lo dist all sw _ ps] chain lo by simp
qed

lemma wheel_chain_grows:
  assumes nn: "\<forall>x\<in>set p. 0 \<le> x"
    and so: "set order = {..<length p}" "length order = length p"
    and chain: "\<And>m. m < length p \<Longrightarrow>
        st ! (order ! m) = (if m = 0 then 0 else en ! (order ! (m - 1))) \<and>
        en ! (order ! m) = fadd64 (st ! (order ! m)) (p ! (order ! m))"
    and m: "m < length p"
  shows "is_float64 (st ! (order ! m)) \<and> 0 \<le> st ! (order ! m) \<and>
         st ! (order ! m) \<le> en ! (order ! m) \<and> is_float64 (en ! (order ! m))"
  using m
proof (induction m)
  case 0
  have "order ! 0 < length p" using so 0 by (metis lessThan_iff nth_mem)
  then have "0 \<le> p ! (order ! 0)" using nn by simp
  then show ?case using chain [OF 0] fadd64_grows [of 0 "p ! (order ! 0)"] by simp
next
  case (Suc m)
  then have IH: "is_float64 (en ! (order ! m))" "0 \<le> st ! (order ! m)"
    "st ! (order ! m) \<le> en ! (order ! m)" by simp_all
  have s: "st ! (order ! Suc m) = en ! (order ! m)" using chain [OF Suc.prems] by simp
  have "order ! Suc m < length p" using so Suc.prems by (metis lessThan_iff nth_mem)
  then have pp: "0 \<le> p ! (order ! Suc m)" using nn by simp
  have s0: "0 \<le> st ! (order ! Suc m)" using s IH by simp
  have sf: "is_float64 (st ! (order ! Suc m))" using s IH by simp
  show ?case using chain [OF Suc.prems] fadd64_grows [OF sf s0 pp] sf s0 by simp
qed

lemma wheel_chain_ordered:
  assumes nn: "\<forall>x\<in>set p. 0 \<le> x"
    and so: "set order = {..<length p}" "length order = length p"
    and chain: "\<And>m. m < length p \<Longrightarrow>
        st ! (order ! m) = (if m = 0 then 0 else en ! (order ! (m - 1))) \<and>
        en ! (order ! m) = fadd64 (st ! (order ! m)) (p ! (order ! m))"
    and ab: "a < b" "b < length p"
  shows "en ! (order ! a) \<le> st ! (order ! b)"
  using ab
proof (induction b)
  case 0
  then show ?case by simp
next
  case (Suc b)
  have s: "st ! (order ! Suc b) = en ! (order ! b)" using chain [OF Suc.prems(2)] by simp
  show ?case
  proof (cases "a = b")
    case True
    then show ?thesis using s by simp
  next
    case False
    then have "a < b" "b < length p" using Suc.prems by simp_all
    then have "en ! (order ! a) \<le> st ! (order ! b)" by (rule Suc.IH)
    moreover have "st ! (order ! b) \<le> en ! (order ! b)"
      using wheel_chain_grows [OF nn so chain, of b] \<open>b < length p\<close> by simp
    ultimately show ?thesis using s by simp
  qed
qed

lemma prec_irrefl: "\<not> prec p i i"
  by (simp add: prec_def)

lemma prec_asym: "prec p i j \<Longrightarrow> \<not> prec p j i"
  by (auto simp: prec_def)

lemma prec_total: "i \<noteq> j \<Longrightarrow> prec p i j \<or> prec p j i"
  by (auto simp: prec_def)

lemma sorted_wrt_position:
  assumes "sorted_wrt (prec p) order" "a < length order" "b < length order"
    and "prec p (order ! a) (order ! b)"
  shows "a < b"
proof (rule ccontr)
  assume "\<not> a < b"
  then consider "a = b" | "b < a" by linarith
  then show False
  proof cases
    case 1
    then show False using assms(4) prec_irrefl by simp
  next
    case 2
    then have "prec p (order ! b) (order ! a)"
      using assms(1,2) by (simp add: sorted_wrt_iff_nth_less)
    then show False using assms(4) prec_asym by blast
  qed
qed

lemma wheel_cumulative_probs_eq:
  assumes "probs < length (heap s)" "heap s ! probs = FArr p"
    and "population self < length (heap s)" "heap s ! population self = GArr rows"
    and w: "wheel_of p = (ps, st, en, cur)"
  shows "wheel_cumulative_probs self probs num_parents s =
         (Inr (length (heap s), Suc (length (heap s)), Suc (Suc (length (heap s)))),
          s\<lparr>heap := (heap s)[probs := FArr ps] @ [FArr st, FArr en, GArr (replicate num_parents None)]\<rparr>)"
proof -
  let ?n = "length p" and ?l = "length (heap s)"
  let ?z = "replicate (length p) (0::real)"
  let ?s2 = "s\<lparr>heap := heap s @ [FArr ?z, FArr ?z]\<rparr>"
  have loop: "for_each [0..<?n] (wheel_step probs ?l (Suc ?l)) 0 ?s2 =
         (Inr (snd (snd (snd (wheel_pure (length [0..<?n]) (p, ?z, ?z, 0))))),
          wheel_heap probs ?l (Suc ?l) (wheel_pure (length [0..<?n]) (p, ?z, ?z, 0)) ?s2)"
  proof (rule wheel_loop_pure)
    show "probs < length (heap ?s2)" using assms(1) by simp
    show "?l < length (heap ?s2)" by simp
    show "Suc ?l < length (heap ?s2)" by simp
    show "probs \<noteq> ?l" "probs \<noteq> Suc ?l" "?l \<noteq> Suc ?l" using assms(1) by simp_all
    show "heap ?s2 ! probs = FArr p" using assms(1,2) by (simp add: nth_append)
    show "heap ?s2 ! ?l = FArr ?z" by (simp add: nth_append)
    show "heap ?s2 ! Suc ?l = FArr ?z" by (simp add: nth_append)
    show "length ?z = length p" "length ?z = length p" by simp_all
    show "[0..<?n] \<noteq> [] \<longrightarrow> p \<noteq> []" by simp
  qed
  have w': "wheel_pure ?n (p, ?z, ?z, 0) = (ps, st, en, cur)" using w by (simp add: wheel_of_def)
  have ne: "population self \<noteq> probs" using assms(2,4) by auto
  let ?s3 = "s\<lparr>heap := (heap s)[probs := FArr ps] @ [FArr st, FArr en]\<rparr>"
  have r: "read_farr probs s = (Inr p, s)"
    using assms(1,2) by (simp add: read_farr_def ret_def)
  have z1: "numpy_zeros ?n s = (Inr ?l, s\<lparr>heap := heap s @ [FArr ?z]\<rparr>)"
    by (simp add: numpy_zeros_def alloc_def)
  have z2: "numpy_zeros ?n (s\<lparr>heap := heap s @ [FArr ?z]\<rparr>) = (Inr (Suc ?l), ?s2)"
    by (simp add: numpy_zeros_def alloc_def)
  have loop': "for_each [0..<?n] (wheel_step probs ?l (Suc ?l)) 0 ?s2 = (Inr cur, ?s3)"
    unfolding loop using assms(1) by (simp add: w' wheel_heap_def list_update_append)
  have e: "numpy_empty (population self) num_parents ?s3 =
      (Inr (Suc (Suc ?l)),
       s\<lparr>heap := (heap s)[probs := FArr ps] @ [FArr st, FArr en, GArr (replicate num_parents None)]\<rparr>)"
    using assms(3,4) ne
    by (simp add: numpy_empty_def bnd_def read_garr_def ret_def alloc_def nth_append)
  show ?thesis
    by (simp add: wheel_cumulative_probs_def bnd_def r z1 z2 loop' e ret_def)
qed

subsection \<open>What the methods leave unchanged\<close>

lemma frameI:
  assumes "\<And>s r s'. n \<le> length (heap s) \<Longrightarrow> f s = (r, s') \<Longrightarrow>
     n \<le> length (heap s') \<and> take n (heap s') = take n (heap s) \<and> (\<forall>x. r = Inr x \<longrightarrow> Q x)"
  shows "frame n f Q"
  using assms unfolding frame_def by blast

lemma frameD:
  assumes "frame n f Q" "n \<le> length (heap s)" "f s = (r, s')"
  shows "n \<le> length (heap s')" "take n (heap s') = take n (heap s)" "r = Inr x \<Longrightarrow> Q x"
  using assms unfolding frame_def by blast+

lemma frame_pure:
  assumes "\<And>s. snd (f s) = s"
  shows "frame n f (\<lambda>_. True)"
proof (rule frameI)
  fix s r s' assume "n \<le> length (heap s)" "f s = (r, s')"
  then show "n \<le> length (heap s') \<and> take n (heap s') = take n (heap s) \<and> (\<forall>x. r = Inr x \<longrightarrow> True)"
    using assms [of s] by simp
qed

lemma frame_ret: "Q x \<Longrightarrow> frame n (ret x) Q"
  by (rule frameI) (auto simp: ret_def)

lemma frame_raise: "frame n (raise e) Q"
  by (rule frameI) (auto simp: raise_def)

lemma frame_weaken: "frame n f P \<Longrightarrow> (\<And>x. P x \<Longrightarrow> Q x) \<Longrightarrow> frame n f Q"
  unfolding frame_def by blast

lemma frame_bnd:
  assumes f: "frame n f P" and g: "\<And>x. P x \<Longrightarrow> frame n (g x) Q"
  shows "frame n (bnd f g) Q"
proof (rule frameI)
  fix s r s' assume n: "n \<le> length (heap s)" and run: "bnd f g s = (r, s')"
  obtain r1 s1 where f1: "f s = (r1, s1)" by (cases "f s") auto
  note d1 = frameD [OF f n f1]
  show "n \<le> length (heap s') \<and> take n (heap s') = take n (heap s) \<and> (\<forall>x. r = Inr x \<longrightarrow> Q x)"
  proof (cases r1)
    case (Inl e)
    then have "r = Inl e" "s' = s1" using run f1 by (simp_all add: bnd_def)
    then show ?thesis using d1(1,2) by simp
  next
    case (Inr x)
    then have g1: "g x s1 = (r, s')" using run f1 by (simp add: bnd_def)
    note d2 = frameD [OF g [OF d1(3) [OF Inr]] d1(1) g1]
    show ?thesis using d1(2) d2 by simp
  qed
qed


lemma frame_read_farr: "frame n (read_farr a) (\<lambda>_. True)"
  by (rule frame_pure) (simp add: read_farr_def ret_def raise_def split: obj.splits)

lemma frame_read_fmat: "frame n (read_fmat a) (\<lambda>_. True)"
  by (rule frame_pure) (simp add: read_fmat_def ret_def raise_def split: obj.splits)

lemma frame_read_garr: "frame n (read_garr a) (\<lambda>_. True)"
  by (rule frame_pure) (simp add: read_garr_def ret_def raise_def split: obj.splits)

lemma frame_getitem: "frame n (getitem xs i) (\<lambda>_. True)"
  by (rule frame_pure) (simp add: getitem_def ret_def raise_def)

lemma frame_numpy_min: "frame n (numpy_min xs) (\<lambda>_. True)"
  by (rule frame_pure) (simp add: numpy_min_def ret_def raise_def split: list.splits)

lemma frame_numpy_max: "frame n (numpy_max xs) (\<lambda>_. True)"
  by (rule frame_pure) (simp add: numpy_max_def ret_def raise_def split: list.splits)

lemma frame_where_first: "frame n (where_first xs v) (\<lambda>_. True)"
  by (rule frame_pure) (simp add: where_first_def ret_def raise_def split: option.splits)

lemma frame_list_index: "frame n (list_index xs v) (\<lambda>_. True)"
  by (rule frame_pure) (simp add: list_index_def ret_def raise_def split: option.splits)

lemma frame_getrow: "frame n (getrow a i) (\<lambda>_. True)"
  unfolding getrow_def by (rule frame_bnd [OF frame_read_garr frame_getitem])

lemma frame_setitem_farr: "n \<le> a \<Longrightarrow> frame n (setitem_farr a i v) (\<lambda>_. True)"
  unfolding setitem_farr_def
  by (rule frame_bnd [OF frame_read_farr]) (auto intro!: frameI frame_raise)

lemma frame_setrow: "n \<le> a \<Longrightarrow> frame n (setrow a i row) (\<lambda>_. True)"
  unfolding setrow_def
  by (rule frame_bnd [OF frame_read_garr]) (auto intro!: frameI frame_raise)




lemma frame_rand: "frame n numpy_random_rand (\<lambda>_. True)"
  by (rule frameI) (auto simp: numpy_random_rand_def)

lemma frame_uniform: "frame n (numpy_random_uniform lo hi) (\<lambda>_. True)"
  by (rule frameI) (auto simp: numpy_random_uniform_def)

lemma frame_randint: "frame n (numpy_random_randint high k) (\<lambda>_. True)"
  by (rule frameI) (auto simp: numpy_random_randint_def ret_def raise_def split: if_splits)

lemma frame_randint2: "frame n (numpy_random_randint2 high r c) (\<lambda>_. True)"
  unfolding numpy_random_randint2_def by (rule frame_bnd [OF frame_randint frame_ret]) simp

lemma frame_take_indices: "frame n (take_indices xs is) (\<lambda>_. True)"
proof (induction "is")
  case Nil
  show ?case by (simp add: frame_ret)
next
  case (Cons i "is")
  show ?case
    by (simp, rule frame_bnd [OF frame_getitem], rule frame_bnd [OF Cons.IH], rule frame_ret) simp
qed

lemma frame_for_each:
  assumes "\<And>x acc. frame n (body x acc) (\<lambda>_. True)"
  shows "frame n (for_each xs body acc) (\<lambda>_. True)"
proof (induction xs arbitrary: acc)
  case Nil
  show ?case by (simp add: frame_ret)
next
  case (Cons x xs)
  show ?case by (simp, rule frame_bnd [OF assms Cons.IH])
qed



lemma frame_if: "frame n a Q \<Longrightarrow> frame n b Q \<Longrightarrow> frame n (if c then a else b) Q"
  by simp

lemma frame_option:
  "frame n a Q \<Longrightarrow> (\<And>x. frame n (b x) Q) \<Longrightarrow> frame n (case v of None \<Rightarrow> a | Some x \<Rightarrow> b x) Q"
  by (cases v) simp_all

lemma frame_bnd2:
  assumes "frame n f (\<lambda>(a, b). P a b)" and "\<And>a b. P a b \<Longrightarrow> frame n (g (a, b)) Q"
  shows "frame n (bnd f g) Q"
  using assms(1) by (rule frame_bnd) (use assms(2) in auto)


lemmas frame_steps =
  frame_bnd [OF frame_read_farr] frame_bnd [OF frame_read_fmat] frame_bnd [OF frame_read_garr]
  frame_bnd [OF frame_getitem] frame_bnd [OF frame_numpy_min] frame_bnd [OF frame_numpy_max]
  frame_bnd [OF frame_where_first] frame_bnd [OF frame_list_index] frame_bnd [OF frame_getrow]
  frame_bnd [OF frame_rand] frame_bnd [OF frame_uniform] frame_bnd [OF frame_randint]
  frame_bnd [OF frame_randint2] frame_bnd [OF frame_take_indices]
  frame_bnd [OF frame_setrow] frame_bnd [OF frame_setitem_farr]
  frame_if frame_option frame_raise

lemma frame_spin:
  assumes "n \<le> parents" and "\<And>i. frame n (to_index i) (\<lambda>_. True)"
  shows "frame n (spin self probs probs_start probs_end parents to_index r k acc) (\<lambda>_. True)"
  unfolding spin_def
  by (intro frame_steps frame_bnd [OF assms(2)] frame_ret assms(1) TrueI)
















lemma round64_eval:
  assumes "0 < x" "1 / 2 ^ n \<le> x" "x < 2 / 2 ^ n"
  shows "round64 x = of_int (round_half_even (x * 2 ^ (n + 52))) / 2 ^ (n + 52)"
proof -
  have p: "2 powr real_of_int (- int n) = 1 / 2 ^ n"
    by (simp add: powr_minus powr_realpow field_simps)
  have "2 powr real_of_int (- int n + 1) = 2 powr (1 - real n)" by simp
  also have "\<dots> = 2 powr 1 / 2 powr real n" by (rule powr_diff)
  also have "\<dots> = 2 / 2 ^ n" by (simp add: powr_realpow)
  finally have q: "2 powr real_of_int (- int n + 1) = 2 / 2 ^ n" .
  have b: "binade x = - int n"
    by (rule binade_eq) (use assms p q in simp_all)
  have "ulp x = 2 powr real_of_int (- int (n + 52))" unfolding ulp_def b by simp
  also have "\<dots> = 1 / 2 ^ (n + 52)" by (simp only: powr_minus of_int_minus powr_realpow of_int_of_nat_eq zero_less_numeral) (simp add: field_simps)
  finally have u: "ulp x = 1 / 2 ^ (n + 52)" .
  show ?thesis using assms(1) unfolding round64_def u by simp
qed

lemma fadd64_d01: "fadd64 0 d01 = d01"
  unfolding fadd64_def
  by (subst round64_eval [where n = 4]) (simp_all add: d01_def round_half_even_def)

lemma fadd64_d03: "fadd64 d01 d02 = d03"
  unfolding fadd64_def
  by (subst round64_eval [where n = 2]) (simp_all add: d01_def d02_def d03_def round_half_even_def)

lemma fadd64_d10: "fadd64 d03 d07 = 1"
  unfolding fadd64_def
  by (subst round64_eval [where n = 0]) (simp_all add: d03_def d07_def round_half_even_def)

lemma d_order: "0 \<le> d01" "d01 < d02" "d02 < d07" "d07 < sentinel" "d01 < d07" "d01 < sentinel" "d02 < sentinel"
  by (simp_all add: d01_def d02_def d07_def sentinel_def)

lemma d_sum: "d07 + d02 + d01 \<noteq> 1" "d03 - d01 \<noteq> d02"
  by (simp_all add: d01_def d02_def d03_def d07_def)
lemma take_nth_eq: "take n xs = take n ys \<Longrightarrow> i < n \<Longrightarrow> xs ! i = ys ! i"
  by (metis nth_take)

lemma wheel_of_sentinel:
  assumes "\<forall>x\<in>set p. x < sentinel" and "wheel_of p = (ps, st, en, cur)"
  shows "ps = replicate (length p) sentinel"
  using wheel_of_props [OF assms] by metis

lemma wheel_sampling_heap:
  fixes s :: "'g state"
  assumes pr: "probs < length (heap s)" "heap s ! probs = FArr p"
    and pop: "population self < length (heap s)" "heap s ! population self = GArr rows"
    and ti: "\<And>n i. frame n (to_index i :: ('g, nat) m) (\<lambda>_. True)"
    and run: "bnd (numpy_copy probs) (\<lambda>probs_copy.
      bnd (wheel_cumulative_probs self probs_copy num_parents) (\<lambda>(probs_start, probs_end, parents).
      bnd (for_each [0..<num_parents] (\<lambda>parent_num parents_indices.
             bnd numpy_random_rand (\<lambda>rand_prob.
             spin self probs probs_start probs_end parents to_index
               rand_prob parent_num parents_indices)) []) (\<lambda>parents_indices.
      ret (parents, parents_indices)))) s = (r, s')"
  shows "heap s' ! probs = FArr p \<and>
         ((\<forall>x\<in>set p. x < sentinel) \<longrightarrow>
          heap s' ! length (heap s) = FArr (replicate (length p) sentinel))"
proof -
  let ?l = "length (heap s)"
  obtain ps st en cur where w: "wheel_of p = (ps, st, en, cur)" by (cases "wheel_of p") auto
  have ps: "ps = replicate (length p) sentinel" if "\<forall>x\<in>set p. x < sentinel"
    using wheel_of_sentinel [OF that w] .
  let ?s1 = "s\<lparr>heap := heap s @ [FArr p]\<rparr>"
  have c: "numpy_copy probs s = (Inr ?l, ?s1)"
    using pr by (simp add: numpy_copy_def bnd_def read_farr_def ret_def alloc_def)
  let ?s2 = "?s1\<lparr>heap := (heap ?s1)[?l := FArr ps] @ [FArr st, FArr en, GArr (replicate num_parents None)]\<rparr>"
  have wh: "wheel_cumulative_probs self ?l num_parents ?s1 =
        (Inr (length (heap ?s1), Suc (length (heap ?s1)), Suc (Suc (length (heap ?s1)))), ?s2)"
    by (rule wheel_cumulative_probs_eq [where p = p and rows = rows])
       (use pop w in \<open>simp_all add: nth_append\<close>)
  let ?loop = "for_each [0..<num_parents] (\<lambda>parent_num parents_indices.
             bnd numpy_random_rand (\<lambda>rand_prob.
             spin self probs (Suc ?l) (Suc (Suc ?l)) (Suc (Suc (Suc ?l))) to_index
               rand_prob parent_num parents_indices)) []"
  obtain r1 s3 where l3: "?loop ?s2 = (r1, s3)" by (cases "?loop ?s2") auto
  have fr: "frame (Suc (Suc (Suc ?l))) ?loop (\<lambda>_. True)"
    by (intro frame_for_each frame_bnd [OF frame_rand] frame_spin) (simp_all add: ti)
  have "s' = s3"
    using run l3 by (cases r1) (simp_all add: bnd_def c wh ret_def)
  moreover have "take (Suc (Suc (Suc ?l))) (heap s3) = take (Suc (Suc (Suc ?l))) (heap ?s2)"
    by (rule frameD(2) [OF fr _ l3]) simp
  ultimately have t: "take (Suc (Suc (Suc ?l))) (heap s') = take (Suc (Suc (Suc ?l))) (heap ?s2)" by simp
  have "heap s' ! probs = heap ?s2 ! probs" using take_nth_eq [OF t] pr(1) by simp
  moreover have "heap s' ! ?l = heap ?s2 ! ?l" using take_nth_eq [OF t] by simp
  ultimately show ?thesis using pr ps by (simp add: nth_append)
qed

lemma member_le_sum_list_nat:
  fixes xs :: "nat list"
  shows "x \<in> set xs \<Longrightarrow> x \<le> sum_list xs"
  by (induction xs) auto

lemma rank_probs_lt:
  assumes "x \<in> set (map (\<lambda>r. fdiv64 (real r) (real (sum_list [1..<n + 1]))) [1..<n + 1])"
  shows "x < sentinel"
proof -
  let ?rank = "[1..<n + 1]"
  have "x \<in> (\<lambda>r. fdiv64 (real r) (real (sum_list ?rank))) ` set ?rank"
    using assms by (simp only: set_map)
  then obtain r where r: "r \<in> set ?rank" "x = fdiv64 (real r) (real (sum_list ?rank))" by blast
  have r1: "1 \<le> r" using r(1) by (auto simp del: upt_Suc)
  have le: "r \<le> sum_list ?rank" using member_le_sum_list_nat [OF r(1)] .
  have "fdiv64 (real r) (real (sum_list ?rank)) \<le> 1"
    by (rule fdiv64_le_one) (use r1 le in simp_all)
  then show ?thesis using r(2) by (simp add: sentinel_def)
qed

lemma rank_selection_heap:
  fixes s :: "'g state"
  assumes fi: "fitness < length (heap s)" "heap s ! fitness = FArr fit"
    and pop: "population self < length (heap s)" "heap s ! population self = GArr rows"
  shows "heap (snd (rank_selection self fitness num_parents s)) ! length (heap s) =
           FArr (map (\<lambda>r. fdiv64 (real r) (real (sum_list [1..<sol_per_pop self + 1])))
                  [1..<sol_per_pop self + 1]) \<and>
         heap (snd (rank_selection self fitness num_parents s)) ! Suc (length (heap s)) =
           FArr (replicate (sol_per_pop self) sentinel)"
proof -
  let ?l = "length (heap s)"
  let ?rank = "[1..<sol_per_pop self + 1]"
  let ?p = "map (\<lambda>r. fdiv64 (real r) (real (sum_list ?rank))) ?rank"
  let ?s1 = "s\<lparr>heap := heap s @ [FArr ?p]\<rparr>"
  let ?fs = "sort_key (\<lambda>k. fit ! k) [0..<length fit]"
  let ?rest = "bnd (numpy_copy ?l) (\<lambda>probs_copy.
      bnd (wheel_cumulative_probs self probs_copy num_parents) (\<lambda>(probs_start, probs_end, parents).
      bnd (for_each [0..<num_parents] (\<lambda>parent_num parents_indices.
             bnd numpy_random_rand (\<lambda>rand_prob.
             spin self ?l probs_start probs_end parents (getitem ?fs)
               rand_prob parent_num parents_indices)) []) (\<lambda>parents_indices.
      ret (parents, parents_indices))))"
  obtain r s' where run: "?rest ?s1 = (r, s')" by (cases "?rest ?s1") auto
  have eq: "rank_selection self fitness num_parents s = (r, s')"
    using fi run by (simp add: rank_selection_def bnd_def read_farr_def ret_def alloc_def Let_def)
  have "heap s' ! ?l = FArr ?p \<and>
         ((\<forall>x\<in>set ?p. x < sentinel) \<longrightarrow>
          heap s' ! length (heap ?s1) = FArr (replicate (length ?p) sentinel))"
    by (rule wheel_sampling_heap [where rows = rows, OF _ _ _ _ _ run])
       (use pop in \<open>simp_all add: nth_append frame_getitem\<close>)
  moreover have "\<forall>x\<in>set ?p. x < sentinel" using rank_probs_lt [of _ "sol_per_pop self"] by blast
  ultimately show ?thesis unfolding eq by simp
qed

lemma roulette_wheel_selection_heap:
  fixes s :: "'g state"
  assumes fi: "fitness < length (heap s)" "heap s ! fitness = FArr fit"
    and pop: "population self < length (heap s)" "heap s ! population self = GArr rows"
    and nz: "numpy_sum fit \<noteq> 0"
  shows "heap (snd (roulette_wheel_selection numpy_sum self fitness num_parents s)) ! length (heap s) =
           FArr (map (\<lambda>f. fdiv64 f (numpy_sum fit)) fit) \<and>
         ((\<forall>x\<in>set fit. fdiv64 x (numpy_sum fit) < sentinel) \<longrightarrow>
          heap (snd (roulette_wheel_selection numpy_sum self fitness num_parents s)) ! Suc (length (heap s)) =
           FArr (replicate (length fit) sentinel))"
proof -
  let ?l = "length (heap s)"
  let ?p = "map (\<lambda>f. fdiv64 f (numpy_sum fit)) fit"
  let ?s1 = "s\<lparr>heap := heap s @ [FArr ?p]\<rparr>"
  let ?rest = "bnd (numpy_copy ?l) (\<lambda>probs_copy.
      bnd (wheel_cumulative_probs self probs_copy num_parents) (\<lambda>(probs_start, probs_end, parents).
      bnd (for_each [0..<num_parents] (\<lambda>parent_num parents_indices.
             bnd numpy_random_rand (\<lambda>rand_prob.
             spin self ?l probs_start probs_end parents ret
               rand_prob parent_num parents_indices)) []) (\<lambda>parents_indices.
      ret (parents, parents_indices))))"
  obtain r s' where run: "?rest ?s1 = (r, s')" by (cases "?rest ?s1") auto
  have eq: "roulette_wheel_selection numpy_sum self fitness num_parents s = (r, s')"
    using fi run nz
    by (simp add: roulette_wheel_selection_def bnd_def read_farr_def ret_def alloc_def Let_def)
  have "heap s' ! ?l = FArr ?p \<and>
         ((\<forall>x\<in>set ?p. x < sentinel) \<longrightarrow>
          heap s' ! length (heap ?s1) = FArr (replicate (length ?p) sentinel))"
    by (rule wheel_sampling_heap [where rows = rows, OF _ _ _ _ _ run])
       (use pop in \<open>simp_all add: nth_append frame_ret\<close>)
  then show ?thesis unfolding eq by simp
qed

lemma wheel_cumulative_probs_heap:
  assumes "probs < length (heap s)" "heap s ! probs = FArr p"
    and "population self < length (heap s)" "heap s ! population self = GArr rows"
    and lt: "\<forall>x\<in>set p. x < sentinel"
  shows "heap (snd (wheel_cumulative_probs self probs num_parents s)) ! probs =
         FArr (replicate (length p) sentinel)"
proof -
  obtain ps st en cur where w: "wheel_of p = (ps, st, en, cur)" by (cases "wheel_of p") auto
  have ps: "ps = replicate (length p) sentinel" using wheel_of_sentinel [OF lt w] .
  show ?thesis
    unfolding wheel_cumulative_probs_eq [OF assms(1-4) w]
    using assms(1) by (simp add: nth_append ps)
qed
lemma wheel_position:
  assumes "set order = {..<n}" "i < n"
  obtains a where "a < length order" "order ! a = i"
  using assms by (metis in_set_conv_nth lessThan_iff)

lemma wheel_chain_fold:
  assumes so: "length order = length p"
    and chain: "\<And>m. m < length p \<Longrightarrow>
        st ! (order ! m) = (if m = 0 then 0 else en ! (order ! (m - 1))) \<and>
        en ! (order ! m) = fadd64 (st ! (order ! m)) (p ! (order ! m))"
    and m: "m < length p"
  shows "en ! (order ! m) = foldl fadd64 0 (map ((!) p) (take (Suc m) order))"
  using m
proof (induction m)
  case 0
  then show ?case using chain [OF 0] so by (simp add: take_Suc_conv_app_nth)
next
  case (Suc m)
  then have IH: "en ! (order ! m) = foldl fadd64 0 (map ((!) p) (take (Suc m) order))" by simp
  have "take (Suc (Suc m)) order = take (Suc m) order @ [order ! Suc m]"
    using Suc.prems so by (simp add: take_Suc_conv_app_nth)
  then show ?case using chain [OF Suc.prems] IH by simp
qed

lemma wheel_sum_telescope:
  fixes st en :: "real list"
  assumes so: "length order = n" "distinct order" "set order = {..<n}"
    and chain: "\<And>m. m < n \<Longrightarrow> st ! (order ! m) = (if m = 0 then 0 else en ! (order ! (m - 1)))"
  shows "(\<Sum>i<n. en ! i - st ! i) = (if n = 0 then 0 else en ! (order ! (n - 1)))"
proof -
  have bij: "bij_betw ((!) order) {..<n} {..<n}"
    using so by (metis bij_betw_nth lessThan_iff atLeast0LessThan)
  have "(\<Sum>i<n. en ! i - st ! i) = (\<Sum>m<n. en ! (order ! m) - st ! (order ! m))"
    by (rule sum.reindex_bij_betw [OF bij, symmetric])
  also have "\<dots> = (if n = 0 then 0 else en ! (order ! (n - 1)))"
    using chain
  proof (induction n)
    case 0
    then show ?case by simp
  next
    case (Suc n)
    have "(\<Sum>m<n. en ! (order ! m) - st ! (order ! m)) = (if n = 0 then 0 else en ! (order ! (n - 1)))"
      by (rule Suc.IH) (use Suc.prems in simp)
    moreover have "st ! (order ! n) = (if n = 0 then 0 else en ! (order ! (n - 1)))"
      using Suc.prems [of n] by simp
    ultimately show ?case by simp
  qed
  finally show ?thesis .
qed

lemma wheel_of_rounding:
  "wheel_of [d07, d02, d01] = ([sentinel, sentinel, sentinel], [d03, d01, 0], [1, d03, d01], 1)"
proof -
  have le: "\<not> d07 \<le> d02" "d01 \<le> d07" "d01 \<le> d02" "\<not> d02 \<le> d01" "\<not> d07 \<le> d01"
    "d02 \<le> d07" "d02 \<le> sentinel" "d07 \<le> sentinel" "\<not> sentinel \<le> d07" "\<not> sentinel \<le> d02"
    using d_order by simp_all
  have ne: "d07 \<noteq> d01" "d02 \<noteq> d01" "d07 \<noteq> d02" "sentinel \<noteq> d07" "sentinel \<noteq> d02"
    "d07 \<noteq> sentinel" "d02 \<noteq> sentinel"
    using d_order by simp_all
  have 1: "wheel_pick [d07, d02, d01] = 2"
    by (simp add: wheel_pick_def min_def le ne)
  have 2: "wheel_pick [d07, d02, sentinel] = 1"
    by (simp add: wheel_pick_def min_def le ne)
  have 3: "wheel_pick [d07, sentinel, sentinel] = 0"
    by (simp add: wheel_pick_def min_def le ne)
  show ?thesis
    by (simp add: wheel_of_def eval_nat_numeral Let_def 1 2 3 fadd64_d01 fadd64_d03 fadd64_d10)
qed
lemma round64_dyadic:
  "round64 (1/4) = 1/4" "round64 (1/2) = 1/2" "round64 (3/4) = 3/4" "round64 1 = 1"
proof -
  show "round64 (1/4) = 1/4"
    by (subst round64_eval [where n = 2]) (simp_all add: round_half_even_def)
  show "round64 (1/2) = 1/2"
    by (subst round64_eval [where n = 1]) (simp_all add: round_half_even_def)
  show "round64 (3/4) = 3/4"
    by (subst round64_eval [where n = 1]) (simp_all add: round_half_even_def)
  show "round64 1 = 1"
    by (subst round64_eval [where n = 0]) (simp_all add: round_half_even_def)
qed

lemma sum64_example: "sum64 [1/2, 1/4, 1/4] = 1"
  by (simp add: sum64_def fadd64_def round64_dyadic)

lemma fdiv64_example: "fdiv64 (1/2) 1 = 1/2" "fdiv64 (1/4) 1 = 1/4"
  by (simp_all add: fdiv64_def round64_dyadic)

subsection \<open>What the selectors write to the array of parents\<close>

































































lemma for_each_inv_partial:
  assumes "I 0 acc s"
    and "\<And>k acc s acc' s'. k < length xs \<Longrightarrow> I k acc s \<Longrightarrow>
           body (xs ! k) acc s = (Inr acc', s') \<Longrightarrow> I (Suc k) acc' s'"
    and "for_each xs body acc s = (Inr acc', s')"
  shows "I (length xs) acc' s'"
  using assms
proof (induction xs arbitrary: I acc s)
  case Nil
  then show ?case by (simp add: ret_def)
next
  case (Cons x xs)
  obtain r1 s1 where b: "body x acc s = (r1, s1)" by (cases "body x acc s") auto
  show ?case
  proof (cases r1)
    case (Inl e)
    then show ?thesis using Cons.prems(3) b by (simp add: bnd_def)
  next
    case (Inr acc1)
    have 1: "I (Suc 0) acc1 s1" using Cons.prems(2) [of 0 acc s acc1 s1] Cons.prems(1) b Inr by simp
    have run: "for_each xs body acc1 s1 = (Inr acc', s')"
      using Cons.prems(3) b Inr by (simp add: bnd_def)
    have "I (Suc (length xs)) acc' s'"
    proof (rule Cons.IH [where I = "\<lambda>k. I (Suc k)", OF 1 _ run])
      fix k acc s acc' s'
      assume "k < length xs" "I (Suc k) acc s" "body (xs ! k) acc s = (Inr acc', s')"
      then show "I (Suc (Suc k)) acc' s'" using Cons.prems(2) [of "Suc k" acc s acc' s'] by simp
    qed
    then show ?thesis by simp
  qed
qed








section \<open>Claims\<close>

text \<open>
  C5, as the specification states it, fails in float64. For the probabilities 0.7, 0.2 and
  0.1 (the three float64 numbers nearest to them) \<open>wheel_cumulative_probs\<close> stores the
  starts 0.30000000000000004, 0.1, 0 and the ends 1, 0.30000000000000004, 0.1: the widths
  add up to 1 and the probabilities to less, and the range of 0.2 is wider than 0.2.
\<close>

theorem wheel_cumulative_probs_sum_counterexample:
  "fst (wheel_cumulative_probs ga_example 1 2 rounding_state) = Inr (2, 3, 4) \<and>
   heap (snd (wheel_cumulative_probs ga_example 1 2 rounding_state)) ! 2 = FArr [d03, d01, 0] \<and>
   heap (snd (wheel_cumulative_probs ga_example 1 2 rounding_state)) ! 3 = FArr [1, d03, d01] \<and>
   0 \<le> d01 \<and> d01 < d02 \<and> d02 < d07 \<and> d07 < sentinel \<and>
   (\<Sum>i<3. [1, d03, d01] ! i - [d03, d01, 0] ! i) \<noteq> sum_list [d07, d02, d01] \<and>
   [1, d03, d01] ! 1 - [d03, d01, 0] ! 1 \<noteq> [d07, d02, d01] ! 1"
proof -
  have h: "1 < length (heap rounding_state)" "heap rounding_state ! 1 = FArr [d07, d02, d01]"
    "population ga_example < length (heap rounding_state)"
    "heap rounding_state ! population ga_example = GArr [Some [7], Some [8], Some [9]]"
    by (simp_all add: rounding_state_def ga_example_def)
  have l: "length (heap rounding_state) = 2" by (simp add: rounding_state_def)
  note e = wheel_cumulative_probs_eq [OF h wheel_of_rounding, of 2]
  have a: "fst (wheel_cumulative_probs ga_example 1 2 rounding_state) = Inr (2, 3, 4)"
    unfolding e l by simp
  have b: "heap (snd (wheel_cumulative_probs ga_example 1 2 rounding_state)) ! 2 = FArr [d03, d01, 0]"
    unfolding e by (simp add: l nth_append)
  have c: "heap (snd (wheel_cumulative_probs ga_example 1 2 rounding_state)) ! 3 = FArr [1, d03, d01]"
    unfolding e by (simp add: l nth_append)
  have d: "0 \<le> d01 \<and> d01 < d02 \<and> d02 < d07 \<and> d07 < sentinel" using d_order by simp
  have f: "(\<Sum>i<3. [1, d03, d01] ! i - [d03, d01, 0] ! i) \<noteq> sum_list [d07, d02, d01]"
    using d_sum(1) by (simp add: eval_nat_numeral lessThan_Suc)
  have g: "[1, d03, d01] ! 1 - [d03, d01, 0] ! 1 \<noteq> [d07, d02, d01] ! 1"
    using d_sum(2) by simp
  show ?thesis using a b c d f g by blast
qed

text \<open>
  C5, amended. For a probability vector whose entries are not negative and lie below the
  sentinel 99999999999, \<open>wheel_cumulative_probs\<close> returns start and end arrays of the
  length of the vector, and the entries are taken in an order \<open>order\<close> (every index once,
  smaller probability first, equal probabilities by index) such that: the first range
  starts at 0 and every other range starts where the one before it ends; the end of a
  range is the float64 sum of its start and its probability, so it is the float64 sum of
  the probabilities taken so far, and no range ends before it starts; two different
  ranges do not overlap; a smaller probability has its range below that of a larger one;
  the widths add up to the end of the last range, which is the float64 sum of the
  probabilities in that order (and not always their exact sum); the array passed in holds
  the sentinel in every entry.
\<close>

theorem wheel_cumulative_probs_ranges:
  assumes "probs < length (heap s)" and "heap s ! probs = FArr p"
    and "population self < length (heap s)" and "heap s ! population self = GArr rows"
    and nn: "\<forall>x\<in>set p. 0 \<le> x \<and> x < sentinel"
  shows "\<exists>probs_start probs_end parents s' st en order.
      wheel_cumulative_probs self probs num_parents s = (Inr (probs_start, probs_end, parents), s') \<and>
      heap s' ! probs_start = FArr st \<and> heap s' ! probs_end = FArr en \<and>
      length st = length p \<and> length en = length p \<and>
      length order = length p \<and> distinct order \<and> set order = {..<length p} \<and>
      sorted_wrt (prec p) order \<and>
      (\<forall>m<length p. st ! (order ! m) = (if m = 0 then 0 else en ! (order ! (m - 1))) \<and>
         en ! (order ! m) = foldl fadd64 0 (map ((!) p) (take (Suc m) order))) \<and>
      (\<forall>i<length p. 0 \<le> st ! i \<and> st ! i \<le> en ! i \<and> en ! i = fadd64 (st ! i) (p ! i)) \<and>
      (\<forall>i<length p. \<forall>j<length p. i \<noteq> j \<longrightarrow> en ! i \<le> st ! j \<or> en ! j \<le> st ! i) \<and>
      (\<forall>i<length p. \<forall>j<length p. p ! i < p ! j \<longrightarrow> en ! i \<le> st ! j) \<and>
      (\<Sum>i<length p. en ! i - st ! i) = foldl fadd64 0 (map ((!) p) order) \<and>
      heap s' ! probs = FArr (replicate (length p) sentinel)"
proof -
  let ?n = "length p"
  obtain ps st en cur where w: "wheel_of p = (ps, st, en, cur)" by (cases "wheel_of p") auto
  have lt: "\<forall>x\<in>set p. x < sentinel" and ge: "\<forall>x\<in>set p. 0 \<le> x" using nn by simp_all
  obtain order where lo: "length order = ?n" and dist: "distinct order"
    and so: "set order = {..<?n}" and sw: "sorted_wrt (prec p) order"
    and chain: "\<And>m. m < ?n \<Longrightarrow>
        st ! (order ! m) = (if m = 0 then 0 else en ! (order ! (m - 1))) \<and>
        en ! (order ! m) = fadd64 (st ! (order ! m)) (p ! (order ! m))"
    and ps: "ps = replicate ?n sentinel"
    using wheel_of_props [OF lt w] by metis
  let ?l = "length (heap s)"
  let ?s' = "s\<lparr>heap := (heap s)[probs := FArr ps] @ [FArr st, FArr en, GArr (replicate num_parents None)]\<rparr>"
  have run: "wheel_cumulative_probs self probs num_parents s = (Inr (?l, Suc ?l, Suc (Suc ?l)), ?s')"
    using assms(1-4) w by (rule wheel_cumulative_probs_eq)
  have a: "heap ?s' ! ?l = FArr st" "heap ?s' ! Suc ?l = FArr en"
    by (simp_all add: nth_append)
  have a': "heap ?s' ! probs = FArr (replicate ?n sentinel)"
    using assms(1) ps by (simp add: nth_append)
  have len: "length st = ?n" "length en = ?n" using wheel_of_length [OF w] by simp_all
  have grows: "0 \<le> st ! (order ! m) \<and> st ! (order ! m) \<le> en ! (order ! m)" if "m < ?n" for m
    using wheel_chain_grows [OF ge so lo _ that, of st en] chain by blast
  have ordered: "en ! (order ! a) \<le> st ! (order ! b)" if "a < b" "b < ?n" for a b
    by (rule wheel_chain_ordered [OF ge so lo _ that]) (rule chain)
  have fold: "en ! (order ! m) = foldl fadd64 0 (map ((!) p) (take (Suc m) order))" if "m < ?n" for m
    by (rule wheel_chain_fold [OF lo _ that]) (rule chain)
  have b: "\<forall>m<?n. st ! (order ! m) = (if m = 0 then 0 else en ! (order ! (m - 1))) \<and>
         en ! (order ! m) = foldl fadd64 0 (map ((!) p) (take (Suc m) order))"
    using chain fold by simp
  have c: "\<forall>i<?n. 0 \<le> st ! i \<and> st ! i \<le> en ! i \<and> en ! i = fadd64 (st ! i) (p ! i)"
  proof (intro allI impI)
    fix i assume i: "i < ?n"
    obtain a where a: "a < length order" "order ! a = i" using wheel_position [OF so i] .
    then have "a < ?n" using lo by simp
    from grows [OF this] chain [OF this] a(2)
    show "0 \<le> st ! i \<and> st ! i \<le> en ! i \<and> en ! i = fadd64 (st ! i) (p ! i)" by simp
  qed
  have pos: "en ! i \<le> st ! j" if i: "i < ?n" and j: "j < ?n" and pr: "prec p i j" for i j
  proof -
    obtain a where a: "a < length order" "order ! a = i" using wheel_position [OF so i] .
    obtain b where b: "b < length order" "order ! b = j" using wheel_position [OF so j] .
    have "a < b" using sorted_wrt_position [OF sw a(1) b(1)] pr a(2) b(2) by simp
    then show ?thesis using ordered [of a b] b lo a(2) by simp
  qed
  have d: "\<forall>i<?n. \<forall>j<?n. i \<noteq> j \<longrightarrow> en ! i \<le> st ! j \<or> en ! j \<le> st ! i"
    using pos prec_total [of _ _ p] by blast
  have e: "\<forall>i<?n. \<forall>j<?n. p ! i < p ! j \<longrightarrow> en ! i \<le> st ! j"
    using pos by (simp add: prec_def)
  have f: "(\<Sum>i<?n. en ! i - st ! i) = foldl fadd64 0 (map ((!) p) order)"
  proof (cases "?n = 0")
    case True
    then show ?thesis using lo by simp
  next
    case False
    have "(\<Sum>i<?n. en ! i - st ! i) = (if ?n = 0 then 0 else en ! (order ! (?n - 1)))"
      by (rule wheel_sum_telescope [OF lo dist so]) (use chain in simp)
    also have "\<dots> = en ! (order ! (?n - 1))" using False by simp
    also have "\<dots> = foldl fadd64 0 (map ((!) p) (take (Suc (?n - 1)) order))"
      by (rule fold) (use False in simp)
    also have "take (Suc (?n - 1)) order = order" using False lo by simp
    finally show ?thesis .
  qed
  show ?thesis using run a a' len lo dist so sw b c d e f by blast
qed

theorem wheel_cumulative_probs_ranges_witness:
  "\<exists>probs_start probs_end parents s' st en order.
      wheel_cumulative_probs ga_example 1 2 wheel_state = (Inr (probs_start, probs_end, parents), s') \<and>
      heap s' ! probs_start = FArr st \<and> heap s' ! probs_end = FArr en \<and>
      length st = length [1/2, 1/4, 1/4 :: real] \<and> length en = length [1/2, 1/4, 1/4 :: real] \<and>
      length order = length [1/2, 1/4, 1/4 :: real] \<and> distinct order \<and>
      set order = {..<length [1/2, 1/4, 1/4 :: real]} \<and>
      sorted_wrt (prec [1/2, 1/4, 1/4]) order \<and>
      (\<forall>m<length [1/2, 1/4, 1/4 :: real].
         st ! (order ! m) = (if m = 0 then 0 else en ! (order ! (m - 1))) \<and>
         en ! (order ! m) = foldl fadd64 0 (map ((!) [1/2, 1/4, 1/4]) (take (Suc m) order))) \<and>
      (\<forall>i<length [1/2, 1/4, 1/4 :: real].
         0 \<le> st ! i \<and> st ! i \<le> en ! i \<and> en ! i = fadd64 (st ! i) ([1/2, 1/4, 1/4] ! i)) \<and>
      (\<forall>i<length [1/2, 1/4, 1/4 :: real]. \<forall>j<length [1/2, 1/4, 1/4 :: real].
         i \<noteq> j \<longrightarrow> en ! i \<le> st ! j \<or> en ! j \<le> st ! i) \<and>
      (\<forall>i<length [1/2, 1/4, 1/4 :: real]. \<forall>j<length [1/2, 1/4, 1/4 :: real].
         [1/2, 1/4, 1/4 :: real] ! i < [1/2, 1/4, 1/4] ! j \<longrightarrow> en ! i \<le> st ! j) \<and>
      (\<Sum>i<length [1/2, 1/4, 1/4 :: real]. en ! i - st ! i) =
         foldl fadd64 0 (map ((!) [1/2, 1/4, 1/4]) order) \<and>
      heap s' ! 1 = FArr (replicate (length [1/2, 1/4, 1/4 :: real]) sentinel)"
proof -
  have 1: "1 < length (heap wheel_state)" by (simp add: wheel_state_def)
  have 2: "heap wheel_state ! 1 = FArr [1/2, 1/4, 1/4]" by (simp add: wheel_state_def)
  have 3: "population ga_example < length (heap wheel_state)"
    by (simp add: wheel_state_def ga_example_def)
  have 4: "heap wheel_state ! population ga_example = GArr [Some [7], Some [8], Some [9]]"
    by (simp add: wheel_state_def ga_example_def)
  have 5: "\<forall>x\<in>set [1/2, 1/4, 1/4 :: real]. 0 \<le> x \<and> x < sentinel" by (simp add: sentinel_def)
  show ?thesis by (rule wheel_cumulative_probs_ranges [OF 1 2 3 4 5])
qed

text \<open>
  C10. \<open>wheel_cumulative_probs\<close> leaves the sentinel 99999999999 in every entry of the array
  it is given, when the entries of that array are below the sentinel. \<open>rank_selection\<close> and
  \<open>roulette_wheel_selection\<close> give it a copy: when either of them ends, by a return or by
  an exception of its loop, the array \<open>probs\<close> it allocated first holds the probabilities
  it computed, and the copy allocated next holds the sentinel in every entry.
\<close>

theorem wheel_sentinel_on_copy:
  fixes s :: "'g state"
  assumes pop: "population self < length (heap s)" "heap s ! population self = GArr rows"
  shows "(probs < length (heap s) \<and> heap s ! probs = FArr p \<and> (\<forall>x\<in>set p. x < sentinel) \<longrightarrow>
            heap (snd (wheel_cumulative_probs self probs num_parents s)) ! probs =
              FArr (replicate (length p) sentinel)) \<and>
         (fitness < length (heap s) \<and> heap s ! fitness = FArr fit \<longrightarrow>
            heap (snd (rank_selection self fitness num_parents s)) ! length (heap s) =
              FArr (map (\<lambda>r. fdiv64 (real r) (real (sum_list [1..<sol_per_pop self + 1])))
                     [1..<sol_per_pop self + 1]) \<and>
            heap (snd (rank_selection self fitness num_parents s)) ! Suc (length (heap s)) =
              FArr (replicate (sol_per_pop self) sentinel)) \<and>
         (fitness < length (heap s) \<and> heap s ! fitness = FArr fit \<and> numpy_sum fit \<noteq> 0 \<longrightarrow>
            heap (snd (roulette_wheel_selection numpy_sum self fitness num_parents s)) ! length (heap s) =
              FArr (map (\<lambda>f. fdiv64 f (numpy_sum fit)) fit) \<and>
            ((\<forall>x\<in>set fit. fdiv64 x (numpy_sum fit) < sentinel) \<longrightarrow>
             heap (snd (roulette_wheel_selection numpy_sum self fitness num_parents s)) ! Suc (length (heap s)) =
               FArr (replicate (length fit) sentinel)))"
  using wheel_cumulative_probs_heap [OF _ _ pop] rank_selection_heap [OF _ _ pop]
    roulette_wheel_selection_heap [OF _ _ pop]
  by blast

theorem wheel_sentinel_on_copy_witness:
  "heap (snd (wheel_cumulative_probs ga_example 1 2 wheel_state)) ! 1 =
     FArr [99999999999, 99999999999, 99999999999] \<and>
   heap (snd (rank_selection ga_example 1 2 wheel_state)) ! 2 =
     FArr [fdiv64 1 6, fdiv64 2 6, fdiv64 3 6] \<and>
   heap (snd (rank_selection ga_example 1 2 wheel_state)) ! 3 =
     FArr [99999999999, 99999999999, 99999999999] \<and>
   heap (snd (roulette_wheel_selection sum64 ga_example 1 2 wheel_state)) ! 2 = FArr [1/2, 1/4, 1/4] \<and>
   heap (snd (roulette_wheel_selection sum64 ga_example 1 2 wheel_state)) ! 3 =
     FArr [99999999999, 99999999999, 99999999999]"
proof -
  have pop: "population ga_example < length (heap wheel_state)"
    "heap wheel_state ! population ga_example = GArr [Some [7], Some [8], Some [9]]"
    by (simp_all add: wheel_state_def ga_example_def)
  have l: "length (heap wheel_state) = 2" by (simp add: wheel_state_def)
  have f: "1 < length (heap wheel_state)" "heap wheel_state ! 1 = FArr [1/2, 1/4, 1/4]"
    by (simp_all add: wheel_state_def)
  have lt: "\<forall>x\<in>set [1/2, 1/4, 1/4 :: real]. x < sentinel" by (simp add: sentinel_def)
  have lt': "\<forall>x\<in>set [1/2, 1/4, 1/4 :: real]. fdiv64 x (sum64 [1/2, 1/4, 1/4]) < sentinel"
    by (simp add: sentinel_def sum64_example fdiv64_example)
  have nz: "sum64 [1/2, 1/4, 1/4] \<noteq> 0" by (simp add: sum64_example)
  have r: "[1..<sol_per_pop ga_example + 1] = [1, 2, 3]"
    by (simp add: ga_example_def upt_rec)
  show ?thesis
    using wheel_sentinel_on_copy [OF pop, of 1 "[1/2, 1/4, 1/4]" 2 1 "[1/2, 1/4, 1/4]" sum64] f lt lt' nz
    by (simp add: l r sentinel_def ga_example_def eval_nat_numeral sum64_example fdiv64_example)
qed






end
